theory Spec2Isabelle
  imports Main "HOL-Library.AList"
begin

section \<open>Characters and the junction table (drawing.ts)\<close>

text \<open>
  A canvas cell holds a one-character string. A character is modelled by its
  code point; the box-drawing characters of the source are all in the basic plane.
\<close>

type_synonym glyph = nat

definition blank :: glyph where "blank = 0x20"

definition HLine :: glyph where "HLine = 0x2500"
definition VLine :: glyph where "VLine = 0x2502"
definition CornerTL :: glyph where "CornerTL = 0x250C"
definition CornerTR :: glyph where "CornerTR = 0x2510"
definition CornerBL :: glyph where "CornerBL = 0x2514"
definition CornerBR :: glyph where "CornerBR = 0x2518"
definition TeeRight :: glyph where "TeeRight = 0x251C"
definition TeeLeft :: glyph where "TeeLeft = 0x2524"
definition TeeDown :: glyph where "TeeDown = 0x252C"
definition TeeUp :: glyph where "TeeUp = 0x2534"
definition Cross :: glyph where "Cross = 0x253C"
definition EndLeft :: glyph where "EndLeft = 0x2574"
definition EndTop :: glyph where "EndTop = 0x2575"
definition EndRight :: glyph where "EndRight = 0x2576"
definition EndBottom :: glyph where "EndBottom = 0x2577"

lemmas glyph_defs = blank_def HLine_def VLine_def CornerTL_def CornerTR_def CornerBL_def
  CornerBR_def TeeRight_def TeeLeft_def TeeDown_def TeeUp_def Cross_def EndLeft_def
  EndTop_def EndRight_def EndBottom_def

text \<open>The array \<open>junctionChars\<close>, in the order of the source.\<close>

definition junctionChars :: "glyph list" where
  "junctionChars = [HLine, VLine, CornerTL, CornerTR, CornerBL, CornerBR, TeeRight, TeeLeft,
     TeeDown, TeeUp, Cross, EndLeft, EndTop, EndRight, EndBottom]"

definition isJunctionChar :: "glyph \<Rightarrow> bool" where
  "isJunctionChar c = (c \<in> set junctionChars)"

text \<open>
  The object literal \<open>junctionMap\<close> of \<open>mergeJunctions\<close>: one row per first character,
  each row an association list from the second character to the fused character.
\<close>

definition junctionMap :: "(glyph \<times> (glyph \<times> glyph) list) list" where
  "junctionMap = [
    (HLine, [(VLine, Cross), (CornerTL, TeeDown), (CornerTR, TeeDown), (CornerBL, TeeUp),
       (CornerBR, TeeUp), (TeeRight, Cross), (TeeLeft, Cross), (TeeDown, TeeDown), (TeeUp, TeeUp)]),
    (VLine, [(HLine, Cross), (CornerTL, TeeRight), (CornerTR, TeeLeft), (CornerBL, TeeRight),
       (CornerBR, TeeLeft), (TeeRight, TeeRight), (TeeLeft, TeeLeft), (TeeDown, Cross), (TeeUp, Cross)]),
    (CornerTL, [(HLine, TeeDown), (VLine, TeeRight), (CornerTR, TeeDown), (CornerBL, TeeRight),
       (CornerBR, Cross), (TeeRight, TeeRight), (TeeLeft, Cross), (TeeDown, TeeDown), (TeeUp, Cross)]),
    (CornerTR, [(HLine, TeeDown), (VLine, TeeLeft), (CornerTL, TeeDown), (CornerBL, Cross),
       (CornerBR, TeeLeft), (TeeRight, Cross), (TeeLeft, TeeLeft), (TeeDown, TeeDown), (TeeUp, Cross)]),
    (CornerBL, [(HLine, TeeUp), (VLine, TeeRight), (CornerTL, TeeRight), (CornerTR, Cross),
       (CornerBR, TeeUp), (TeeRight, TeeRight), (TeeLeft, Cross), (TeeDown, Cross), (TeeUp, TeeUp)]),
    (CornerBR, [(HLine, TeeUp), (VLine, TeeLeft), (CornerTL, Cross), (CornerTR, TeeLeft),
       (CornerBL, TeeUp), (TeeRight, Cross), (TeeLeft, TeeLeft), (TeeDown, Cross), (TeeUp, TeeUp)]),
    (TeeRight, [(HLine, Cross), (VLine, TeeRight), (CornerTL, TeeRight), (CornerTR, Cross),
       (CornerBL, TeeRight), (CornerBR, Cross), (TeeLeft, Cross), (TeeDown, Cross), (TeeUp, Cross)]),
    (TeeLeft, [(HLine, Cross), (VLine, TeeLeft), (CornerTL, Cross), (CornerTR, TeeLeft),
       (CornerBL, Cross), (CornerBR, TeeLeft), (TeeRight, Cross), (TeeDown, Cross), (TeeUp, Cross)]),
    (TeeDown, [(HLine, TeeDown), (VLine, Cross), (CornerTL, TeeDown), (CornerTR, TeeDown),
       (CornerBL, Cross), (CornerBR, Cross), (TeeRight, Cross), (TeeLeft, Cross), (TeeUp, Cross)]),
    (TeeUp, [(HLine, TeeUp), (VLine, Cross), (CornerTL, Cross), (CornerTR, Cross),
       (CornerBL, TeeUp), (CornerBR, TeeUp), (TeeRight, Cross), (TeeLeft, Cross), (TeeDown, Cross)])]"

text \<open>
  \<open>mergeJunctions(c1, c2)\<close>: the entry of row \<open>c1\<close> at \<open>c2\<close> when both the row and
  the entry exist (every entry is a non-empty string, hence truthy), else \<open>c1\<close>.
\<close>

definition mergeJunctions :: "glyph \<Rightarrow> glyph \<Rightarrow> glyph" where
  "mergeJunctions c1 c2 =
     (case map_of junctionMap c1 of
        None \<Rightarrow> c1
      | Some row \<Rightarrow> (case map_of row c2 of None \<Rightarrow> c1 | Some fused \<Rightarrow> fused))"

subsection \<open>Properties of the junction table\<close>

lemma junctionMap_keys:
  "map fst junctionMap =
     [HLine, VLine, CornerTL, CornerTR, CornerBL, CornerBR, TeeRight, TeeLeft, TeeDown, TeeUp]"
  by (simp add: junctionMap_def)

lemma no_row_for_cross_and_ends:
  "c \<in> {Cross, EndLeft, EndTop, EndRight, EndBottom} \<Longrightarrow> map_of junctionMap c = None"
  by (auto simp add: junctionMap_def glyph_defs)

lemma no_column_for_cross_and_ends:
  "c \<in> {Cross, EndLeft, EndTop, EndRight, EndBottom} \<Longrightarrow>
   map_of junctionMap d = Some row \<Longrightarrow> map_of row c = None"
  by (auto simp add: junctionMap_def glyph_defs split: if_splits)

text \<open>
  Claim C8. Merging the horizontal line onto a cell holding the vertical line, and the
  vertical line onto a cell holding the horizontal line, both give the four-way cross.
\<close>

theorem mergeJunctions_lines_cross:
  "mergeJunctions HLine VLine = Cross \<and> mergeJunctions VLine HLine = Cross \<and>
   mergeJunctions HLine VLine = mergeJunctions VLine HLine"
  by (simp add: mergeJunctions_def junctionMap_def glyph_defs)

text \<open>
  Claim C10. A pair of characters without an entry in the table (no row for the first, or
  no entry for the second in that row) merges to the first character. The cross and the
  four line ends have no row and occur in no row, so a cross stays when anything is merged
  onto it and none of the five fuses with anything, although all five are junction
  characters for \<open>isJunctionChar\<close>.
\<close>

theorem mergeJunctions_fallback:
  "((map_of junctionMap c1 = None \<or>
     (\<exists>row. map_of junctionMap c1 = Some row \<and> map_of row c2 = None))
      \<longrightarrow> mergeJunctions c1 c2 = c1) \<and>
   (c \<in> {Cross, EndLeft, EndTop, EndRight, EndBottom} \<longrightarrow>
      map_of junctionMap c = None \<and>
      (\<forall>row \<in> snd ` set junctionMap. map_of row c = None) \<and>
      mergeJunctions c d = c \<and> mergeJunctions d c = d \<and> isJunctionChar c)"
proof (intro conjI impI)
  assume "map_of junctionMap c1 = None \<or>
    (\<exists>row. map_of junctionMap c1 = Some row \<and> map_of row c2 = None)"
  then show "mergeJunctions c1 c2 = c1"
    by (auto simp add: mergeJunctions_def)
next
  assume c: "c \<in> {Cross, EndLeft, EndTop, EndRight, EndBottom}"
  show norow: "map_of junctionMap c = None"
    using c by (rule no_row_for_cross_and_ends)
  show "\<forall>row \<in> snd ` set junctionMap. map_of row c = None"
    using c by (auto simp add: junctionMap_def glyph_defs)
  show "mergeJunctions c d = c"
    using norow by (simp add: mergeJunctions_def)
  show "mergeJunctions d c = d"
    using no_column_for_cross_and_ends [OF c, of d]
    by (cases "map_of junctionMap d") (simp_all add: mergeJunctions_def)
  show "isJunctionChar c"
    using c by (auto simp add: isJunctionChar_def junctionChars_def)
qed

theorem mergeJunctions_fallback_witness:
  "mergeJunctions HLine HLine = HLine \<and> mergeJunctions Cross VLine = Cross \<and>
   mergeJunctions VLine Cross = VLine \<and> isJunctionChar Cross \<and>
   map_of junctionMap Cross = None"
  using mergeJunctions_fallback [of HLine HLine Cross VLine]
  by (simp add: junctionMap_def glyph_defs)

section \<open>The canvas (class DrawingEngine of drawing.ts)\<close>

text \<open>
  What the source throws. \<open>NoPathFound\<close> is the \<open>Error("No path found")\<close> of the
  pathfinder; \<open>TypeError\<close> is what JavaScript raises on reading a property of
  \<open>undefined\<close>. \<open>NotANumber\<close> marks a place where the source would go on computing
  with \<open>undefined\<close> or \<open>NaN\<close>, which the integer model of numbers does not have.
  \<open>UnknownDirection\<close> is the \<open>Error("Unknown direction")\<close> of \<open>getOpposite\<close>.
\<close>

datatype error = NoPathFound | TypeError | NotANumber | UnknownDirection

text \<open>
  The canvas is \<open>string[][]\<close>, indexed \<open>canvas[x][y]\<close>: a list of columns. A cell that
  was never written (an array slot beyond what \<open>makeDrawing\<close> filled) reads as
  \<open>undefined\<close>.
\<close>

datatype cell = Undefined | Str glyph

type_synonym canvas = "cell list list"

text \<open>
  The assignment \<open>a[j] = v\<close> on a JavaScript array: inside the array it replaces, at or
  beyond the end it grows the array, leaving empty slots in between.
\<close>

definition array_set :: "cell list \<Rightarrow> nat \<Rightarrow> cell \<Rightarrow> cell list" where
  "array_set a j v =
     (if j < length a then a[j := v] else a @ replicate (j - length a) Undefined @ [v])"

definition makeDrawing :: "int \<Rightarrow> int \<Rightarrow> canvas" where
  "makeDrawing x y = replicate (nat (x + 1)) (replicate (nat (y + 1)) (Str blank))"

definition getDrawingSize :: "canvas \<Rightarrow> int \<times> int" where
  "getDrawingSize cv =
     (if length cv = 0 then (0, 0) else (int (length cv) - 1, int (length (cv ! 0)) - 1))"

text \<open>
  The copy loops of \<open>increaseSize\<close>. The inner loop writes \<open>newDrawing[i][j] = canvas[i][j]\<close>
  for every cell of one old column; the outer loop visits the old columns in order.
  Writing into a column that \<open>newDrawing\<close> does not have is a TypeError.
\<close>

fun copy_cells :: "cell list \<Rightarrow> nat \<Rightarrow> cell list \<Rightarrow> cell list" where
  "copy_cells newcol j [] = newcol"
| "copy_cells newcol j (c # cs) = copy_cells (array_set newcol j c) (Suc j) cs"

fun copy_columns :: "canvas \<Rightarrow> nat \<Rightarrow> canvas \<Rightarrow> error + canvas" where
  "copy_columns newDrawing i [] = Inr newDrawing"
| "copy_columns newDrawing i (col # cols) =
     (if col = [] then copy_columns newDrawing (Suc i) cols
      else if i < length newDrawing
      then copy_columns (newDrawing[i := copy_cells (newDrawing ! i) 0 col]) (Suc i) cols
      else Inl TypeError)"

definition increaseSize :: "int \<Rightarrow> int \<Rightarrow> canvas \<Rightarrow> error + canvas" where
  "increaseSize x y cv =
     (let (currSizeX, currSizeY) = getDrawingSize cv;
          newDrawing = makeDrawing (max x currSizeX) (max y currSizeY)
      in copy_columns newDrawing 0 cv)"

subsection \<open>Resizing keeps the content\<close>

lemma copy_cells_eq:
  "j \<le> length newcol \<Longrightarrow>
   copy_cells newcol j cs = take j newcol @ cs @ drop (j + length cs) newcol"
proof (induction cs arbitrary: newcol j)
  case Nil
  then show ?case by simp
next
  case (Cons c cs)
  show ?case
  proof (cases "j < length newcol")
    case True
    then show ?thesis
      using Cons.IH [of "Suc j" "newcol[j := c]"]
      by (simp add: array_set_def take_Suc_conv_app_nth)
  next
    case False
    with Cons.prems have j: "j = length newcol" by simp
    show ?thesis
      using Cons.IH [of "Suc j" "newcol @ [c]"] j
      by (simp add: array_set_def)
  qed
qed

lemma copy_columns_eq:
  "i + length cols \<le> length new \<Longrightarrow>
   \<exists>res. copy_columns new i cols = Inr res \<and> length res = length new \<and>
     (\<forall>k < length new. res ! k =
        (if i \<le> k \<and> k < i + length cols
         then cols ! (k - i) @ drop (length (cols ! (k - i))) (new ! k) else new ! k))"
proof (induction cols arbitrary: new i)
  case Nil
  then show ?case by auto
next
  case (Cons col cols)
  let ?new' = "if col = [] then new else new[i := copy_cells (new ! i) 0 col]"
  have len: "Suc i + length cols \<le> length ?new'" using Cons.prems by simp
  from Cons.IH [OF len] obtain res where
    res: "copy_columns ?new' (Suc i) cols = Inr res" "length res = length ?new'"
    "\<forall>k < length ?new'. res ! k =
        (if Suc i \<le> k \<and> k < Suc i + length cols
         then cols ! (k - Suc i) @ drop (length (cols ! (k - Suc i))) (?new' ! k) else ?new' ! k)"
    by blast
  have i: "i < length new" using Cons.prems by simp
  have eq: "copy_columns new i (col # cols) = Inr res"
    using res(1) i by (cases "col = []") simp_all
  have "length res = length new" using res(2) by simp
  moreover have "\<forall>k < length new. res ! k =
        (if i \<le> k \<and> k < i + length (col # cols)
         then (col # cols) ! (k - i) @ drop (length ((col # cols) ! (k - i))) (new ! k)
         else new ! k)"
  proof (intro allI impI)
    fix k assume k: "k < length new"
    then have kk: "k < length ?new'" by simp
    show "res ! k =
        (if i \<le> k \<and> k < i + length (col # cols)
         then (col # cols) ! (k - i) @ drop (length ((col # cols) ! (k - i))) (new ! k)
         else new ! k)"
    proof (cases "k = i")
      case True
      then show ?thesis using res(3) kk i by (simp add: copy_cells_eq)
    next
      case False
      then show ?thesis using res(3) kk i k
        by (auto simp add: nth_Cons' )
    qed
  qed
  ultimately show ?case using eq by blast
qed


text \<open>
  Claim C7. For every canvas and every requested size, \<open>increaseSize\<close> returns a canvas
  (it does not throw) whose size, as \<open>getDrawingSize\<close> reads it, is the component-wise
  maximum of the old size and the requested one, and every cell of the old canvas is a
  cell of the new one with the same content.
\<close>

theorem increaseSize_grows_and_keeps:
  "\<exists>cv'. increaseSize x y cv = Inr cv' \<and>
     getDrawingSize cv' = (max x (fst (getDrawingSize cv)), max y (snd (getDrawingSize cv))) \<and>
     (\<forall>i < length cv. \<forall>j < length (cv ! i).
        i < length cv' \<and> j < length (cv' ! i) \<and> cv' ! i ! j = cv ! i ! j)"
proof -
  obtain cx cy where sz: "getDrawingSize cv = (cx, cy)" by (cases "getDrawingSize cv")
  let ?new = "makeDrawing (max x cx) (max y cy)"
  have cx: "int (length cv) - 1 \<le> cx" "0 \<le> cx"
    using sz by (auto simp add: getDrawingSize_def split: if_splits)
  have lnew: "length ?new = nat (max x cx + 1)" by (simp add: makeDrawing_def)
  have le: "0 + length cv \<le> length ?new" using cx lnew by simp
  from copy_columns_eq [OF le] obtain res where
    res: "copy_columns ?new 0 cv = Inr res" "length res = length ?new"
    "\<forall>k < length ?new. res ! k =
        (if 0 \<le> k \<and> k < 0 + length cv
         then cv ! (k - 0) @ drop (length (cv ! (k - 0))) (?new ! k) else ?new ! k)"
    by blast
  have inc: "increaseSize x y cv = Inr res"
    using res(1) sz by (simp add: increaseSize_def)
  have col: "\<And>k. k < length ?new \<Longrightarrow> ?new ! k = replicate (nat (max y cy + 1)) (Str blank)"
    by (simp add: makeDrawing_def)
  have pos: "0 < length res" using res(2) lnew cx by simp
  have cyb: "- 1 \<le> cy"
    using sz by (auto simp add: getDrawingSize_def split: if_splits)
  have l0: "length (res ! 0) = nat (max y cy + 1)"
  proof (cases "cv = []")
    case True
    then have "res ! 0 = ?new ! 0" using res(3) pos res(2) by simp
    then show ?thesis using col [of 0] pos res(2) by simp
  next
    case False
    then have cy: "cy = int (length (cv ! 0)) - 1"
      using sz by (auto simp add: getDrawingSize_def)
    have "res ! 0 = cv ! 0 @ drop (length (cv ! 0)) (?new ! 0)"
      using res(3) pos res(2) False by simp
    then show ?thesis
      using col [of 0] pos res(2) cy by auto
  qed
  have lres: "int (length res) - 1 = max x cx" using res(2) lnew cx by linarith
  have lres0: "int (length (res ! 0)) - 1 = max y cy" using l0 cyb by linarith
  have "getDrawingSize res = (int (length res) - 1, int (length (res ! 0)) - 1)"
    using pos by (simp add: getDrawingSize_def)
  then have size: "getDrawingSize res = (max x cx, max y cy)"
    by (simp only: lres lres0)
  have keep: "\<forall>i < length cv. \<forall>j < length (cv ! i).
        i < length res \<and> j < length (res ! i) \<and> res ! i ! j = cv ! i ! j"
  proof (intro allI impI)
    fix i j assume i: "i < length cv" and j: "j < length (cv ! i)"
    have il: "i < length ?new" using i le by simp
    then have "res ! i = cv ! i @ drop (length (cv ! i)) (?new ! i)"
      using res(3) i by simp
    then show "i < length res \<and> j < length (res ! i) \<and> res ! i ! j = cv ! i ! j"
      using il res(2) j by (simp add: nth_append)
  qed
  show ?thesis using inc size keep sz by simp
qed

theorem increaseSize_grows_and_keeps_witness:
  "increaseSize 2 0 [[Str 65, Str 66], [Str 67, Str 68]] =
     Inr [[Str 65, Str 66], [Str 67, Str 68], [Str blank, Str blank]] \<and>
   getDrawingSize [[Str 65, Str 66], [Str 67, Str 68], [Str blank, Str blank]] = (2, 1) \<and>
   getDrawingSize [[Str 65, Str 66], [Str 67, Str 68]] = (1, 1)"
  using increaseSize_grows_and_keeps [of 2 0 "[[Str 65, Str 66], [Str 67, Str 68]]"]
  by (simp add: increaseSize_def getDrawingSize_def makeDrawing_def array_set_def
      numeral_2_eq_2 numeral_3_eq_3)

section \<open>Coordinates and directions (types/common.ts, types/direction.ts)\<close>

text \<open>
  \<open>GridCoord\<close>, \<open>DrawingCoord\<close> and \<open>Direction\<close> are classes with two number fields
  \<open>x\<close> and \<open>y\<close>; each is modelled as the pair \<open>(x, y)\<close>. Their \<open>equals\<close> compares
  both fields, which is equality of pairs.
\<close>

type_synonym GridCoord = "int \<times> int"
type_synonym DrawingCoord = "int \<times> int"
type_synonym Direction = "int \<times> int"

definition Up :: Direction where "Up = (1, 0)"
definition Down :: Direction where "Down = (1, 2)"
definition Left :: Direction where "Left = (0, 1)"
definition Right :: Direction where "Right = (2, 1)"
definition UpperRight :: Direction where "UpperRight = (2, 0)"
definition UpperLeft :: Direction where "UpperLeft = (0, 0)"
definition LowerRight :: Direction where "LowerRight = (2, 2)"
definition LowerLeft :: Direction where "LowerLeft = (0, 2)"
definition Middle :: Direction where "Middle = (1, 1)"

lemmas Direction_defs = Up_def Down_def Left_def Right_def UpperRight_def UpperLeft_def
  LowerRight_def LowerLeft_def Middle_def

definition determineDirection :: "int \<times> int \<Rightarrow> int \<times> int \<Rightarrow> Direction" where
  "determineDirection from to =
     (if fst from = fst to then (if snd from < snd to then Down else Up)
      else if snd from = snd to then (if fst from < fst to then Right else Left)
      else if fst from < fst to then (if snd from < snd to then LowerRight else UpperRight)
      else (if snd from < snd to then LowerLeft else UpperLeft))"

section \<open>Path simplification (mergePath of pathfinding.ts)\<close>

text \<open>
  The first loop of \<open>mergePath\<close>: \<open>step0\<close> and \<open>step1\<close> are the two points before
  \<open>path[idx + 2]\<close>, the list argument is the path from index \<open>idx + 2\<close> on, and the
  result is what the loop pushes on \<open>indexToRemove\<close>.
\<close>

fun indexToRemove :: "GridCoord \<Rightarrow> GridCoord \<Rightarrow> nat \<Rightarrow> GridCoord list \<Rightarrow> nat list" where
  "indexToRemove step0 step1 idx [] = []"
| "indexToRemove step0 step1 idx (step2 # rest) =
     (if determineDirection step0 step1 = determineDirection step1 step2 then [idx + 1] else [])
     @ indexToRemove step1 step2 (idx + 1) rest"

definition mergePath :: "GridCoord list \<Rightarrow> GridCoord list" where
  "mergePath path =
     (if length path \<le> 2 then path
      else let removed = indexToRemove (path ! 0) (path ! 1) 0 (drop 2 path)
           in map (\<lambda>idx. path ! idx) (filter (\<lambda>idx. idx \<notin> set removed) [0..<length path]))"

subsection \<open>Simplification is idempotent\<close>

text \<open>
  What \<open>mergePath\<close> keeps after the first point, by recursion on the path;
  \<open>mergePath_Cons\<close> shows that the index filter of the source computes it.
\<close>

fun kept :: "GridCoord \<Rightarrow> GridCoord \<Rightarrow> GridCoord list \<Rightarrow> GridCoord list" where
  "kept a b [] = [b]"
| "kept a b (c # rest) =
     (if determineDirection a b = determineDirection b c then [] else [b]) @ kept b c rest"

lemma map_nth_filter_nths:
  "map (\<lambda>i. xs ! i) (filter P [0..<length xs]) = nths xs {i. P i}"
proof -
  have "zip xs [0..<length xs] = map (\<lambda>i. (xs ! i, i)) [0..<length xs]"
    by (rule nth_equalityI) simp_all
  then show ?thesis
    by (simp add: nths_def filter_map comp_def)
qed

lemma indexToRemove_bounds:
  "i \<in> set (indexToRemove s0 s1 idx rest) \<Longrightarrow> idx < i"
  by (induction rest arbitrary: s0 s1 idx) (fastforce split: if_splits)+

lemma indexToRemove_shift:
  "indexToRemove s0 s1 (Suc idx) rest = map Suc (indexToRemove s0 s1 idx rest)"
  by (induction rest arbitrary: s0 s1 idx) simp_all

lemma nths_kept:
  "nths (s1 # rest) {j. Suc j \<notin> set (indexToRemove s0 s1 0 rest)} = kept s0 s1 rest"
proof (induction rest arbitrary: s0 s1)
  case Nil
  then show ?case by (simp add: nths_Cons)
next
  case (Cons c r)
  have no1: "Suc 0 \<notin> set (indexToRemove s1 c (Suc 0) r)"
    using indexToRemove_bounds [of "Suc 0" s1 c "Suc 0" r] by auto
  have shift: "{j. Suc (Suc j) \<notin> set (indexToRemove s1 c (Suc 0) r)}
       = {j. Suc j \<notin> set (indexToRemove s1 c 0 r)}"
    by (auto simp add: indexToRemove_shift [of s1 c 0 r])
  show ?case
    using Cons.IH [where ?s0.0 = s1 and ?s1.0 = c] no1 shift
    by (simp add: nths_Cons [of s1 "c # r"])
qed

lemma mergePath_Cons:
  "mergePath (a # b # c # rest) = a # kept a b (c # rest)"
proof -
  let ?R = "indexToRemove a b 0 (c # rest)"
  have "0 \<notin> set ?R" using indexToRemove_bounds [of 0 a b 0 "c # rest"] by auto
  then have "nths (a # b # c # rest) {i. i \<notin> set ?R}
      = a # nths (b # c # rest) {j. Suc j \<notin> set ?R}"
    by (simp add: nths_Cons [of a "b # c # rest"] del: indexToRemove.simps)
  then show ?thesis
    using map_nth_filter_nths [of "a # b # c # rest" "\<lambda>i. i \<notin> set ?R"]
      nths_kept [of b "c # rest" a]
    by (simp add: mergePath_def Let_def del: indexToRemove.simps kept.simps upt_Suc)
qed


lemma determineDirection_trans:
  "determineDirection a b = determineDirection b c \<Longrightarrow>
   determineDirection a c = determineDirection a b"
  by (auto simp add: determineDirection_def Direction_defs split: if_splits)

lemma kept_not_Nil: "kept a b rest \<noteq> []"
  by (induction rest arbitrary: a b) simp_all

lemma kept_length: "length (kept a b rest) \<le> Suc (length rest)"
  by (induction rest arbitrary: a b) (simp_all add: le_SucI)

lemma kept_last: "last (kept a b rest) = last (b # rest)"
  by (induction rest arbitrary: a b) (simp_all add: kept_not_Nil)

lemma kept_first_direction:
  "kept a b rest = x # xs \<Longrightarrow> determineDirection a x = determineDirection a b"
proof (induction rest arbitrary: a b)
  case Nil
  then show ?case by simp
next
  case (Cons c r)
  show ?case
  proof (cases "determineDirection a b = determineDirection b c")
    case True
    with Cons.prems have "kept b c r = x # xs" by simp
    then have "determineDirection b x = determineDirection b c" by (rule Cons.IH)
    with True have "determineDirection a b = determineDirection b x" by simp
    then show ?thesis by (rule determineDirection_trans)
  next
    case False
    with Cons.prems show ?thesis by simp
  qed
qed

lemma kept_cong:
  "determineDirection a x = determineDirection b x \<Longrightarrow> kept a x xs = kept b x xs"
  by (cases xs) simp_all

lemma kept_stable:
  "kept a b rest = x # xs \<Longrightarrow> kept a x xs = x # xs"
proof (induction rest arbitrary: a b x xs)
  case Nil
  then show ?case by auto
next
  case (Cons c r)
  show ?case
  proof (cases "determineDirection a b = determineDirection b c")
    case True
    with Cons.prems have k: "kept b c r = x # xs" by simp
    have "determineDirection a x = determineDirection a b"
      using Cons.prems by (rule kept_first_direction)
    moreover have "determineDirection b x = determineDirection b c"
      using k by (rule kept_first_direction)
    ultimately have "determineDirection a x = determineDirection b x" using True by simp
    then have "kept a x xs = kept b x xs" by (rule kept_cong)
    with Cons.IH [OF k] show ?thesis by simp
  next
    case False
    with Cons.prems have x: "x = b" and xs: "xs = kept b c r" by auto
    obtain x' xs' where k: "kept b c r = x' # xs'"
      using kept_not_Nil [of b c r] by (cases "kept b c r") auto
    have "determineDirection b x' = determineDirection b c"
      using k by (rule kept_first_direction)
    with False have "determineDirection a b \<noteq> determineDirection b x'" by simp
    with Cons.IH [OF k] show ?thesis using x xs k by simp
  qed
qed

text \<open>
  Claim C4. \<open>mergePath\<close> is idempotent, never returns more points than it was given,
  keeps the first and the last point of a non-empty path, and returns a path of at most
  two points as it is.
\<close>

theorem mergePath_idempotent:
  "mergePath (mergePath p) = mergePath p \<and>
   length (mergePath p) \<le> length p \<and>
   (p \<noteq> [] \<longrightarrow> hd (mergePath p) = hd p \<and> last (mergePath p) = last p) \<and>
   (length p \<le> 2 \<longrightarrow> mergePath p = p)"
proof (cases "length p \<le> 2")
  case True
  then show ?thesis by (simp add: mergePath_def)
next
  case False
  then obtain a b c rest where p: "p = a # b # c # rest"
    by (cases p; cases "tl p"; cases "tl (tl p)") auto
  obtain x xs where k: "kept a b (c # rest) = x # xs"
    using kept_not_Nil [of a b "c # rest"] by (cases "kept a b (c # rest)") auto
  have m: "mergePath p = a # x # xs"
    unfolding p k [symmetric] by (rule mergePath_Cons)
  have lp: "length p = Suc (Suc (Suc (length rest)))" and lastp: "last p = last (c # rest)"
    and hdp: "hd p = a"
    unfolding p by simp_all
  have st: "kept a x xs = x # xs" using k by (rule kept_stable)
  have idem: "mergePath (a # x # xs) = a # x # xs"
  proof (cases xs)
    case Nil
    then show ?thesis by (simp add: mergePath_def)
  next
    case (Cons y ys)
    then show ?thesis using st mergePath_Cons [of a x y ys] by simp
  qed
  have len: "length (mergePath p) \<le> length p"
    using kept_length [of a b "c # rest"] unfolding k m lp by simp
  have lst: "last (mergePath p) = last p"
    using kept_last [of a b "c # rest"] unfolding k m lastp by simp
  have hd: "hd (mergePath p) = hd p" unfolding m hdp by simp
  have "mergePath (mergePath p) = mergePath p" unfolding m by (rule idem)
  then show ?thesis using len lst hd False by simp
qed

theorem mergePath_idempotent_witness:
  "mergePath [(0, 0), (1, 0), (2, 0), (2, 1), (2, 2), (3, 2)] = [(0, 0), (2, 0), (2, 2), (3, 2)] \<and>
   mergePath [(0, 0), (2, 0), (2, 2), (3, 2)] = [(0, 0), (2, 0), (2, 2), (3, 2)] \<and>
   mergePath [(0, 0), (1, 0)] = [(0, 0), (1, 0)]"
  using mergePath_idempotent [of "[(0, 0), (1, 0), (2, 0), (2, 1), (2, 2), (3, 2)]"]
    mergePath_idempotent [of "[(0, 0), (1, 0)]"]
  by (simp add: mergePath_Cons determineDirection_def Direction_defs)

section \<open>The pathfinder (getPath of pathfinding.ts)\<close>

record PriorityQueueItem =
  coord :: GridCoord
  priority :: int

text \<open>
  \<open>PriorityQueue.push\<close> appends the item and sorts the array by priority;
  \<open>Array.prototype.sort\<close> is stable, as \<open>sort_key\<close> is. \<open>pop\<close> takes the first item.
\<close>

definition pq_push :: "PriorityQueueItem list \<Rightarrow> PriorityQueueItem \<Rightarrow> PriorityQueueItem list" where
  "pq_push items item = sort_key priority (items @ [item])"

definition heuristic :: "GridCoord \<Rightarrow> GridCoord \<Rightarrow> int" where
  "heuristic a b =
     (let absX = \<bar>fst a - fst b\<bar>; absY = \<bar>snd a - snd b\<bar>
      in if absX = 0 \<or> absY = 0 then absX + absY else absX + absY + 1)"

text \<open>
  The maps \<open>costSoFar\<close> and \<open>cameFrom\<close> are keyed by the string \<open>"x,y"\<close>, which
  determines the pair \<open>(x, y)\<close>; the model keys them by the pair. The value \<open>null\<close> that
  \<open>cameFrom\<close> holds for the start is \<open>None\<close>.
\<close>

record search_state =
  pq :: "PriorityQueueItem list"
  costSoFar :: "GridCoord \<rightharpoonup> int"
  cameFrom :: "GridCoord \<rightharpoonup> GridCoord option"

definition directions :: "GridCoord list" where
  "directions = [(1, 0), (- 1, 0), (0, 1), (0, - 1)]"

text \<open>
  The body of \<open>for (const dir of directions)\<close> for one direction. \<open>currentCost\<close> is
  \<open>costSoFar.get(currentKey)\<close>: the loop writes the entries of neighbours only, so
  the entry of the current cell is the same for the four directions.
\<close>

definition visit ::
  "(GridCoord \<Rightarrow> bool) \<Rightarrow> GridCoord \<Rightarrow> GridCoord \<Rightarrow> int \<Rightarrow> search_state \<Rightarrow> GridCoord
     \<Rightarrow> search_state" where
  "visit isFreeInGrid to current currentCost s dir =
     (let next = (fst current + fst dir, snd current + snd dir)
      in if \<not> isFreeInGrid next \<and> next \<noteq> to then s
         else let newCost = currentCost + 1;
                  pushed = s\<lparr>costSoFar := (costSoFar s)(next \<mapsto> newCost),
                             pq := pq_push (pq s)
                                     \<lparr>coord = next, priority = newCost + heuristic next to\<rparr>,
                             cameFrom := (cameFrom s)(next \<mapsto> Some current)\<rparr>
              in case costSoFar s next of
                   None \<Rightarrow> pushed
                 | Some existingCost \<Rightarrow> if newCost < existingCost then pushed else s)"

text \<open>
  Path reconstruction: \<open>while (c !== null) { path.unshift(c); c = cameFrom.get(key) || null }\<close>.
  The loop ends at a cell whose entry is \<open>null\<close> or missing. Nothing in the loop itself
  bounds it, so it is a partial function: \<open>None\<close> is a loop that never ends.
\<close>

partial_function (option) reconstruct ::
  "(GridCoord \<rightharpoonup> GridCoord option) \<Rightarrow> GridCoord \<Rightarrow> GridCoord list \<Rightarrow> GridCoord list option" where
  "reconstruct cf c path =
     (case cf c of
        Some (Some previous) \<Rightarrow> reconstruct cf previous (c # path)
      | _ \<Rightarrow> Some (c # path))"

text \<open>
  The main loop \<open>while (pq.length() > 0)\<close>. An empty queue ends it with the error
  \<open>No path found\<close>. The result \<open>None\<close> is a search that never ends. The branch
  \<open>NotANumber\<close> stands for the source adding 1 to a missing cost (the assertion
  \<open>costSoFar.get(currentKey)!\<close>); \<open>search_no_NotANumber\<close> below shows that a search
  started by \<open>getPath\<close> never takes it.
\<close>

partial_function (option) search ::
  "(GridCoord \<Rightarrow> bool) \<Rightarrow> GridCoord \<Rightarrow> search_state \<Rightarrow> (error + GridCoord list) option" where
  "search isFreeInGrid to s =
     (case pq s of
        [] \<Rightarrow> Some (Inl NoPathFound)
      | currentItem # rest \<Rightarrow>
          let current = coord currentItem in
          if current = to then map_option Inr (reconstruct (cameFrom s) current [])
          else (case costSoFar s current of
                  None \<Rightarrow> Some (Inl NotANumber)
                | Some currentCost \<Rightarrow>
                    search isFreeInGrid to
                      (foldl (visit isFreeInGrid to current currentCost) (s\<lparr>pq := rest\<rparr>)
                         directions)))"

declare reconstruct.simps [code]
declare search.simps [code]

definition getPath ::
  "GridCoord \<Rightarrow> GridCoord \<Rightarrow> (GridCoord \<Rightarrow> bool) \<Rightarrow> (error + GridCoord list) option" where
  "getPath from to isFreeInGrid =
     search isFreeInGrid to
       \<lparr>pq = pq_push [] \<lparr>coord = from, priority = 0\<rparr>,
        costSoFar = [from \<mapsto> 0],
        cameFrom = [from \<mapsto> None]\<rparr>"

subsection \<open>The predecessor links form a tree rooted at the start\<close>

text \<open>Two cells are grid-adjacent when they differ by one in exactly one coordinate.\<close>

definition adjacent :: "GridCoord \<Rightarrow> GridCoord \<Rightarrow> bool" where
  "adjacent a b = (\<bar>fst a - fst b\<bar> + \<bar>snd a - snd b\<bar> = 1)"

text \<open>
  The loop invariant of the search: the start has the entry \<open>null\<close> and cost 0 and is
  the only cell with \<open>null\<close>; every other cell with an entry is free or the goal, is
  adjacent to its predecessor, and costs at least one more than its predecessor does;
  every cell with a cost has an entry, and every queued cell has a cost.
\<close>

definition tree_inv ::
  "(GridCoord \<Rightarrow> bool) \<Rightarrow> GridCoord \<Rightarrow> GridCoord \<Rightarrow> search_state \<Rightarrow> bool" where
  "tree_inv isFree from to s =
     (cameFrom s from = Some None \<and> costSoFar s from = Some 0 \<and>
      (\<forall>c. cameFrom s c = Some None \<longrightarrow> c = from) \<and>
      (\<forall>c p. cameFrom s c = Some (Some p) \<longrightarrow>
         c \<noteq> from \<and> (isFree c \<or> c = to) \<and> adjacent p c \<and> cameFrom s p \<noteq> None \<and>
         (\<exists>k kp. costSoFar s c = Some k \<and> costSoFar s p = Some kp \<and> kp + 1 \<le> k)) \<and>
      (\<forall>c k. costSoFar s c = Some k \<longrightarrow> 0 \<le> k \<and> cameFrom s c \<noteq> None) \<and>
      (\<forall>item \<in> set (pq s). costSoFar s (coord item) \<noteq> None))"

lemma set_pq_push [simp]: "set (pq_push items item) = insert item (set items)"
  by (simp add: pq_push_def)

lemma directions_adjacent:
  "dir \<in> set directions \<Longrightarrow> adjacent c (fst c + fst dir, snd c + snd dir)"
  by (auto simp add: directions_def adjacent_def)

lemma tree_invD:
  assumes "tree_inv isFree from to s"
  shows "cameFrom s from = Some None" and "costSoFar s from = Some 0"
    and "\<And>c. cameFrom s c = Some None \<Longrightarrow> c = from"
    and "\<And>c p. cameFrom s c = Some (Some p) \<Longrightarrow> c \<noteq> from"
    and "\<And>c p. cameFrom s c = Some (Some p) \<Longrightarrow> isFree c \<or> c = to"
    and "\<And>c p. cameFrom s c = Some (Some p) \<Longrightarrow> adjacent p c"
    and "\<And>c p. cameFrom s c = Some (Some p) \<Longrightarrow> cameFrom s p \<noteq> None"
    and "\<And>c p. cameFrom s c = Some (Some p) \<Longrightarrow>
           \<exists>k kp. costSoFar s c = Some k \<and> costSoFar s p = Some kp \<and> kp + 1 \<le> k"
    and "\<And>c k. costSoFar s c = Some k \<Longrightarrow> 0 \<le> k"
    and "\<And>c k. costSoFar s c = Some k \<Longrightarrow> cameFrom s c \<noteq> None"
    and "\<And>item. item \<in> set (pq s) \<Longrightarrow> costSoFar s (coord item) \<noteq> None"
  using assms unfolding tree_inv_def by blast+

lemma visit_tree_inv:
  assumes inv: "tree_inv isFree from to s"
    and cur: "costSoFar s current = Some currentCost"
    and dir: "dir \<in> set directions"
  shows "tree_inv isFree from to (visit isFree to current currentCost s dir) \<and>
         costSoFar (visit isFree to current currentCost s dir) current = Some currentCost"
proof -
  define nxt where "nxt = (fst current + fst dir, snd current + snd dir)"
  define pushed where "pushed = s\<lparr>costSoFar := (costSoFar s)(nxt \<mapsto> currentCost + 1),
                    pq := pq_push (pq s) \<lparr>coord = nxt, priority = currentCost + 1 + heuristic nxt to\<rparr>,
                    cameFrom := (cameFrom s)(nxt \<mapsto> Some current)\<rparr>"
  note D = tree_invD [OF inv]
  have adj: "adjacent current nxt" unfolding nxt_def using dir by (rule directions_adjacent)
  have ne: "nxt \<noteq> current"
    unfolding nxt_def using dir by (cases current) (auto simp add: directions_def)
  have c0: "0 \<le> currentCost" using D(9) cur by blast
  have cfcur: "cameFrom s current \<noteq> None" using D(10) cur by blast
  have cf: "\<And>c. cameFrom pushed c = (if c = nxt then Some (Some current) else cameFrom s c)"
    and co: "\<And>c. costSoFar pushed c = (if c = nxt then Some (currentCost + 1) else costSoFar s c)"
    and pqp: "set (pq pushed) = insert \<lparr>coord = nxt, priority = currentCost + 1 + heuristic nxt to\<rparr> (set (pq s))"
    by (simp_all add: pushed_def)
  have pushed: "tree_inv isFree from to pushed"
    if free: "isFree nxt \<or> nxt = to"
      and low: "\<And>e. costSoFar s nxt = Some e \<Longrightarrow> currentCost + 1 < e"
  proof -
    have nf: "nxt \<noteq> from" using D(2) low [of 0] c0 by auto
    show ?thesis
      unfolding tree_inv_def
    proof (intro conjI allI impI ballI)
      show "cameFrom pushed from = Some None" using D(1) nf by (simp add: cf)
      show "costSoFar pushed from = Some 0" using D(2) nf by (simp add: co)
    next
      fix c assume "cameFrom pushed c = Some None"
      then show "c = from" using D(3) [of c] by (simp add: cf split: if_splits)
    next
      fix c p assume cp: "cameFrom pushed c = Some (Some p)"
      show "c \<noteq> from" using cp D(4) [of c p] nf by (auto simp add: cf split: if_splits)
      show "isFree c \<or> c = to" using cp D(5) [of c p] free
        by (auto simp add: cf split: if_splits)
      show "adjacent p c" using cp D(6) [of c p] adj by (auto simp add: cf split: if_splits)
      show "cameFrom pushed p \<noteq> None" using cp D(7) [of c p] cfcur
        by (auto simp add: cf split: if_splits)
      show "\<exists>k kp. costSoFar pushed c = Some k \<and> costSoFar pushed p = Some kp \<and> kp + 1 \<le> k"
      proof (cases "c = nxt")
        case True
        then have "p = current" using cp by (simp add: cf)
        then show ?thesis using True cur ne by (simp add: co)
      next
        case False
        then have old: "cameFrom s c = Some (Some p)" using cp by (simp add: cf)
        then obtain k kp where k: "costSoFar s c = Some k" "costSoFar s p = Some kp" "kp + 1 \<le> k"
          using D(8) by blast
        show ?thesis
        proof (cases "p = nxt")
          case True
          then have "currentCost + 1 < kp" using low k(2) by simp
          then show ?thesis using True False k by (simp add: co)
        next
          case pf: False
          then show ?thesis using False k by (simp add: co)
        qed
      qed
    next
      fix c k assume "costSoFar pushed c = Some k"
      then show "0 \<le> k" using D(9) [of c k] c0 by (auto simp add: co split: if_splits)
    next
      fix c k assume "costSoFar pushed c = Some k"
      then show "cameFrom pushed c \<noteq> None" using D(10) [of c k]
        by (auto simp add: co cf split: if_splits)
    next
      fix item assume "item \<in> set (pq pushed)"
      then show "costSoFar pushed (coord item) \<noteq> None"
        using D(11) [of item] by (auto simp add: co pqp)
    qed
  qed
  have pcur: "costSoFar pushed current = Some currentCost" using cur ne by (simp add: co)
  have v: "visit isFree to current currentCost s dir =
      (if \<not> isFree nxt \<and> nxt \<noteq> to then s
       else case costSoFar s nxt of None \<Rightarrow> pushed
            | Some e \<Rightarrow> if currentCost + 1 < e then pushed else s)"
    unfolding visit_def Let_def nxt_def pushed_def by (rule refl)
  show ?thesis
  proof (cases "\<not> isFree nxt \<and> nxt \<noteq> to")
    case True
    then have "visit isFree to current currentCost s dir = s" unfolding v by simp
    then show ?thesis using inv cur by simp
  next
    case free: False
    show ?thesis
    proof (cases "costSoFar s nxt")
      case None
      then have "visit isFree to current currentCost s dir = pushed"
        unfolding v using free by auto
      moreover have "tree_inv isFree from to pushed"
        using free None by (intro pushed) auto
      ultimately show ?thesis using pcur by simp
    next
      case (Some e)
      show ?thesis
      proof (cases "currentCost + 1 < e")
        case True
        then have "visit isFree to current currentCost s dir = pushed"
          unfolding v using free Some by auto
        moreover have "tree_inv isFree from to pushed"
          using free Some True by (intro pushed) auto
        ultimately show ?thesis using pcur by simp
      next
        case False
        then have "visit isFree to current currentCost s dir = s"
          unfolding v using free Some by auto
        then show ?thesis using inv cur by simp
      qed
    qed
  qed
qed

lemma visit_fold_tree_inv:
  "tree_inv isFree from to s \<Longrightarrow> costSoFar s current = Some currentCost \<Longrightarrow>
   set dirs \<subseteq> set directions \<Longrightarrow>
   tree_inv isFree from to (foldl (visit isFree to current currentCost) s dirs)"
proof (induction dirs arbitrary: s)
  case Nil
  then show ?case by simp
next
  case (Cons d dirs)
  have "d \<in> set directions" using Cons.prems by simp
  from visit_tree_inv [OF Cons.prems(1,2) this] Cons.IH Cons.prems(3)
  show ?case by simp
qed

lemma reconstruct_sound:
  assumes run: "reconstruct (cameFrom s) c0 acc0 = Some path0"
    and inv: "tree_inv isFree from to s"
    and dom0: "cameFrom s c0 \<noteq> None"
  shows "\<exists>pre. path0 = pre @ c0 # acc0 \<and> hd (pre @ [c0]) = from \<and>
      successively adjacent (pre @ [c0]) \<and>
      (\<forall>x \<in> set (pre @ [c0]). x \<noteq> from \<longrightarrow> isFree x \<or> x = to) \<and>
      (\<forall>k. costSoFar s c0 = Some k \<longrightarrow> int (length pre) \<le> k)"
proof -
  note D = tree_invD [OF inv]
  define P where "P = (\<lambda>cf c acc path.
    cf = cameFrom s \<longrightarrow> cameFrom s c \<noteq> None \<longrightarrow>
    (\<exists>pre. path = pre @ c # acc \<and> hd (pre @ [c]) = from \<and>
      successively adjacent (pre @ [c]) \<and>
      (\<forall>x \<in> set (pre @ [c]). x \<noteq> from \<longrightarrow> isFree x \<or> x = to) \<and>
      (\<forall>k. costSoFar s c = Some k \<longrightarrow> int (length pre) \<le> k)))"
  have "P (cameFrom s) c0 acc0 path0"
  proof (rule reconstruct.raw_induct [where P = P, OF _ run])
    fix rec :: "(GridCoord \<rightharpoonup> GridCoord option) \<Rightarrow> GridCoord \<Rightarrow> GridCoord list \<Rightarrow> GridCoord list option"
    fix cf c acc path
    assume IH: "\<And>c path b y. rec c path b = Some y \<Longrightarrow> P c path b y"
      and body: "(case cf c of None \<Rightarrow> Some (c # acc) | Some None \<Rightarrow> Some (c # acc)
          | Some (Some previous) \<Rightarrow> rec cf previous (c # acc)) = Some path"
    show "P cf c acc path"
      unfolding P_def
    proof (intro impI)
      assume cf: "cf = cameFrom s" and dom: "cameFrom s c \<noteq> None"
      from dom obtain v where v: "cameFrom s c = Some v" by auto
      show "\<exists>pre. path = pre @ c # acc \<and> hd (pre @ [c]) = from \<and>
        successively adjacent (pre @ [c]) \<and>
        (\<forall>x \<in> set (pre @ [c]). x \<noteq> from \<longrightarrow> isFree x \<or> x = to) \<and>
        (\<forall>k. costSoFar s c = Some k \<longrightarrow> int (length pre) \<le> k)"
      proof (cases v)
        case None
        then have "c = from" using v D(3) by simp
        moreover have "path = c # acc" using body v None cf by simp
        ultimately show ?thesis using D(9) [of c] by (intro exI [of _ "[]"]) auto
      next
        case (Some p)
        then have cp: "cameFrom s c = Some (Some p)" using v by simp
        then have "rec cf p (c # acc) = Some path" using body cf by simp
        from IH [OF this] cf D(7) [OF cp]
        obtain pre where pre: "path = pre @ p # c # acc" "hd (pre @ [p]) = from"
          "successively adjacent (pre @ [p])"
          "\<forall>x \<in> set (pre @ [p]). x \<noteq> from \<longrightarrow> isFree x \<or> x = to"
          "\<forall>k. costSoFar s p = Some k \<longrightarrow> int (length pre) \<le> k"
          unfolding P_def by blast
        obtain k kp where k: "costSoFar s c = Some k" "costSoFar s p = Some kp" "kp + 1 \<le> k"
          using D(8) [OF cp] by blast
        have "path = (pre @ [p]) @ c # acc" using pre(1) by simp
        moreover have "hd ((pre @ [p]) @ [c]) = from" using pre(2) by (cases pre) simp_all
        moreover have "successively adjacent ((pre @ [p]) @ [c])"
          using pre(3) D(6) [OF cp] by (simp add: successively_append_iff)
        moreover have "\<forall>x \<in> set ((pre @ [p]) @ [c]). x \<noteq> from \<longrightarrow> isFree x \<or> x = to"
          using pre(4) D(5) [OF cp] by auto
        moreover have "\<forall>k. costSoFar s c = Some k \<longrightarrow> int (length (pre @ [p])) \<le> k"
          using pre(5) k by auto
        ultimately show ?thesis by blast
      qed
    qed
  qed
  then show ?thesis using dom0 by (simp add: P_def)
qed

text \<open>
  A proof rule for the loop: an invariant that every iteration keeps, and that gives the
  result both when the queue is empty and when the goal is taken from the queue.
\<close>

lemma search_rule:
  assumes run: "search isFree to s0 = Some r" and init: "I s0"
    and step: "\<And>s item rest k. I s \<Longrightarrow> pq s = item # rest \<Longrightarrow> coord item \<noteq> to \<Longrightarrow>
        costSoFar s (coord item) = Some k \<Longrightarrow>
        I (foldl (visit isFree to (coord item) k) (s\<lparr>pq := rest\<rparr>) directions)"
    and cost: "\<And>s item rest. I s \<Longrightarrow> pq s = item # rest \<Longrightarrow> coord item \<noteq> to \<Longrightarrow>
        costSoFar s (coord item) \<noteq> None"
    and empty: "\<And>s. I s \<Longrightarrow> pq s = [] \<Longrightarrow> Q (Inl NoPathFound)"
    and goal: "\<And>s item rest path. I s \<Longrightarrow> pq s = item # rest \<Longrightarrow> coord item = to \<Longrightarrow>
        reconstruct (cameFrom s) to [] = Some path \<Longrightarrow> Q (Inr path)"
  shows "Q r"
proof -
  define P where "P = (\<lambda>(isF :: GridCoord \<Rightarrow> bool) (t :: GridCoord) s res.
     isF = isFree \<longrightarrow> t = to \<longrightarrow> I s \<longrightarrow> Q res)"
  have "P isFree to s0 r"
  proof (rule search.raw_induct [where P = P, OF _ run])
    fix srch :: "(GridCoord \<Rightarrow> bool) \<Rightarrow> GridCoord \<Rightarrow> search_state \<Rightarrow> (error + GridCoord list) option"
    fix isF t s res
    assume IH: "\<And>t s b y. srch t s b = Some y \<Longrightarrow> P t s b y"
      and body: "(case pq s of [] \<Rightarrow> Some (Inl NoPathFound)
        | currentItem # rest \<Rightarrow>
            let current = coord currentItem
            in if current = t
               then map_option Inr (reconstruct (cameFrom s) current [])
               else (case costSoFar s current of None \<Rightarrow> Some (Inl NotANumber)
                    | Some currentCost \<Rightarrow>
                        srch isF t
                         (foldl (visit isF t current currentCost)
                           (s\<lparr>pq := rest\<rparr>) directions))) = Some res"
    show "P isF t s res"
      unfolding P_def
    proof (intro impI)
      assume eq: "isF = isFree" "t = to" and I: "I s"
      show "Q res"
      proof (cases "pq s")
        case Nil
        then have "res = Inl NoPathFound" using body by simp
        then show ?thesis using empty [OF I Nil] by simp
      next
        case (Cons item rest)
        show ?thesis
        proof (cases "coord item = to")
          case True
          then obtain path where "reconstruct (cameFrom s) to [] = Some path" "res = Inr path"
            using body Cons eq by (auto simp add: Let_def)
          then show ?thesis using goal [OF I Cons True] by simp
        next
          case False
          then obtain k where k: "costSoFar s (coord item) = Some k"
            using cost [OF I Cons False] by auto
          then have "srch isFree to
              (foldl (visit isFree to (coord item) k) (s\<lparr>pq := rest\<rparr>) directions) = Some res"
            using body Cons eq False by (simp add: Let_def)
          from IH [OF this] step [OF I Cons False k] show ?thesis by (simp add: P_def)
        qed
      qed
    qed
  qed
  then show ?thesis using init by (simp add: P_def)
qed


lemma initial_tree_inv:
  "tree_inv isFree from to
     \<lparr>pq = pq_push [] \<lparr>coord = from, priority = 0\<rparr>,
      costSoFar = [from \<mapsto> 0], cameFrom = [from \<mapsto> None]\<rparr>"
  by (simp add: tree_inv_def)

lemma search_sound:
  assumes run: "search isFree to s0 = Some r" and inv0: "tree_inv isFree from to s0"
  shows "case r of
           Inl e \<Rightarrow> e = NoPathFound
         | Inr path \<Rightarrow> path \<noteq> [] \<and> hd path = from \<and> last path = to \<and>
             successively adjacent path \<and>
             (\<forall>c \<in> set path. c \<noteq> from \<longrightarrow> c \<noteq> to \<longrightarrow> isFree c)"
proof (rule search_rule [OF run, where I = "tree_inv isFree from to"])
  show "tree_inv isFree from to s0" by (rule inv0)
next
  fix s item rest k
  assume inv: "tree_inv isFree from to s" and pq: "pq s = item # rest"
    and k: "costSoFar s (coord item) = Some k"
  have "tree_inv isFree from to (s\<lparr>pq := rest\<rparr>)"
    using inv pq unfolding tree_inv_def by simp
  moreover have "costSoFar (s\<lparr>pq := rest\<rparr>) (coord item) = Some k" using k by simp
  ultimately show "tree_inv isFree from to
      (foldl (visit isFree to (coord item) k) (s\<lparr>pq := rest\<rparr>) directions)"
    by (rule visit_fold_tree_inv) simp
next
  fix s item rest
  assume inv: "tree_inv isFree from to s" and pq: "pq s = item # rest"
  show "costSoFar s (coord item) \<noteq> None"
    using tree_invD(11) [OF inv, of item] pq by simp
next
  fix s :: search_state
  show "case Inl NoPathFound of
           Inl e \<Rightarrow> e = NoPathFound
         | Inr path \<Rightarrow> path \<noteq> [] \<and> hd path = from \<and> last path = to \<and>
             successively adjacent path \<and>
             (\<forall>c \<in> set path. c \<noteq> from \<longrightarrow> c \<noteq> to \<longrightarrow> isFree c)"
    by simp
next
  fix s item rest path
  assume inv: "tree_inv isFree from to s" and pq: "pq s = item # rest"
    and goal: "coord item = to" and rec: "reconstruct (cameFrom s) to [] = Some path"
  have "costSoFar s to \<noteq> None" using tree_invD(11) [OF inv, of item] pq goal by simp
  then obtain y where "costSoFar s to = Some y" by blast
  then have "cameFrom s to \<noteq> None" by (rule tree_invD(10) [OF inv])
  from reconstruct_sound [OF rec inv this]
  obtain pre where pre: "path = pre @ [to]" "hd (pre @ [to]) = from"
    "successively adjacent (pre @ [to])"
    "\<forall>x \<in> set (pre @ [to]). x \<noteq> from \<longrightarrow> isFree x \<or> x = to"
    by blast
  then show "case Inr path of
           Inl e \<Rightarrow> e = NoPathFound
         | Inr path \<Rightarrow> path \<noteq> [] \<and> hd path = from \<and> last path = to \<and>
             successively adjacent path \<and>
             (\<forall>c \<in> set path. c \<noteq> from \<longrightarrow> c \<noteq> to \<longrightarrow> isFree c)"
    by auto
qed

lemma getPath_sound:
  "getPath from to isFree = Some r \<Longrightarrow>
   (case r of
      Inl e \<Rightarrow> e = NoPathFound
    | Inr path \<Rightarrow> path \<noteq> [] \<and> hd path = from \<and> last path = to \<and>
        successively adjacent path \<and>
        (\<forall>c \<in> set path. c \<noteq> from \<longrightarrow> c \<noteq> to \<longrightarrow> isFree c))"
  unfolding getPath_def by (rule search_sound [OF _ initial_tree_inv])

subsection \<open>A search that never ends\<close>

text \<open>
  A freeness predicate with infinitely many free cells: the cells \<open>(x, 0)\<close> with
  \<open>0 \<le> x\<close>. The goal \<open>(0, 5)\<close> has no free neighbour, so the search from
  \<open>(0, 0)\<close> walks along the corridor forever: the queue always holds exactly one cell.
\<close>

definition corridor :: "GridCoord \<Rightarrow> bool" where
  "corridor c = (snd c = 0 \<and> 0 \<le> fst c)"

definition corridor_inv :: "search_state \<Rightarrow> bool" where
  "corridor_inv s =
     (\<exists>k p. 0 \<le> k \<and> pq s = [\<lparr>coord = (k, 0), priority = p\<rparr>] \<and>
        (\<forall>j. costSoFar s (j, 0) = (if 0 \<le> j \<and> j \<le> k then Some j else None)))"

lemma pq_push_Nil [simp]: "pq_push [] item = [item]"
  by (simp add: pq_push_def)

lemma corridor_step:
  assumes inv: "corridor_inv s" and pq: "pq s = item # rest"
    and k: "costSoFar s (coord item) = Some k"
  shows "corridor_inv (foldl (visit corridor (0, 5) (coord item) k) (s\<lparr>pq := rest\<rparr>) directions)"
proof -
  from inv pq obtain n p where n: "0 \<le> n" "item = \<lparr>coord = (n, 0), priority = p\<rparr>" "rest = []"
    and cost: "\<And>j. costSoFar s (j, 0) = (if 0 \<le> j \<and> j \<le> n then Some j else None)"
    unfolding corridor_inv_def by auto
  have kn: "k = n" using k n cost [of n] by simp
  have c1: "costSoFar s (n + 1, 0) = None" using cost [of "n + 1"] by simp
  have c2: "0 < n \<Longrightarrow> costSoFar s (n - 1, 0) = Some (n - 1)" using cost [of "n - 1"] by simp
  have "foldl (visit corridor (0, 5) (n, 0) n) (s\<lparr>pq := []\<rparr>) directions =
      s\<lparr>costSoFar := (costSoFar s)((n + 1, 0) \<mapsto> n + 1),
        pq := [\<lparr>coord = (n + 1, 0), priority = n + 1 + heuristic (n + 1, 0) (0, 5)\<rparr>],
        cameFrom := (cameFrom s)((n + 1, 0) \<mapsto> Some (n, 0))\<rparr>"
    using n(1) c1 c2
    by (cases "n = 0") (simp_all add: directions_def visit_def corridor_def Let_def)
  then show ?thesis
    unfolding corridor_inv_def using n cost kn
    by (auto intro!: exI [of _ "n + 1"])
qed

text \<open>
  Counterexample to claim C2 as stated: on this input \<open>getPath\<close> neither returns a path
  nor fails with \<open>No path found\<close>; the loop does not end.
\<close>

theorem getPath_corridor_diverges: "getPath (0, 0) (0, 5) corridor = None"
proof (cases "getPath (0, 0) (0, 5) corridor")
  case None
  then show ?thesis .
next
  case (Some r)
  have False
  proof (rule search_rule [OF Some [unfolded getPath_def], where I = corridor_inv and Q = "\<lambda>_. False"])
    show "corridor_inv \<lparr>pq = pq_push [] \<lparr>coord = (0, 0), priority = 0\<rparr>,
        costSoFar = [(0, 0) \<mapsto> 0], cameFrom = [(0, 0) \<mapsto> None]\<rparr>"
      unfolding corridor_inv_def by (auto intro!: exI [of _ 0])
  next
    fix s item rest k
    assume "corridor_inv s" "pq s = item # rest" "costSoFar s (coord item) = Some k"
    then show "corridor_inv (foldl (visit corridor (0, 5) (coord item) k) (s\<lparr>pq := rest\<rparr>) directions)"
      by (rule corridor_step)
  next
    fix s item rest
    assume "corridor_inv s" "pq s = item # rest"
    then show "costSoFar s (coord item) \<noteq> None"
      unfolding corridor_inv_def by auto
  next
    fix s assume "corridor_inv s" "pq s = []"
    then show False unfolding corridor_inv_def by auto
  next
    fix s item rest path
    assume "corridor_inv s" "pq s = item # rest" "coord item = (0, 5)"
    then show False unfolding corridor_inv_def by auto
  qed
  then show ?thesis ..
qed

subsection \<open>Termination of the search\<close>

text \<open>
  When every cell that is ever given a cost lies in a finite set \<open>B\<close>, the search ends:
  a cost is below the number of cells that have one, each push lowers the cost of a cell of
  \<open>B\<close> (or gives it its first), and each iteration takes one item from the queue.
\<close>

definition weight :: "nat \<Rightarrow> int option \<Rightarrow> nat" where
  "weight m v = (case v of None \<Rightarrow> m | Some k \<Rightarrow> nat k)"

definition potential :: "GridCoord set \<Rightarrow> search_state \<Rightarrow> nat" where
  "potential B s = 5 * (\<Sum>c\<in>B. weight (card B) (costSoFar s c)) + length (pq s)"

definition fin_inv :: "GridCoord set \<Rightarrow> search_state \<Rightarrow> bool" where
  "fin_inv B s =
     (finite B \<and> dom (costSoFar s) \<subseteq> B \<and>
      (\<forall>c k. costSoFar s c = Some k \<longrightarrow> 0 \<le> k \<and> k < int (card (dom (costSoFar s)))))"

lemma length_pq_push [simp]: "length (pq_push items item) = Suc (length items)"
  by (simp add: pq_push_def)

lemma sum_weight_update:
  assumes fin: "finite B" and x: "x \<in> B" and less: "weight m (Some v) < weight m (g x)"
  shows "(\<Sum>c\<in>B. weight m ((g(x \<mapsto> v)) c)) < (\<Sum>c\<in>B. weight m (g c))"
proof -
  have "(\<Sum>c\<in>B. weight m ((g(x \<mapsto> v)) c))
      = weight m (Some v) + (\<Sum>c\<in>B - {x}. weight m ((g(x \<mapsto> v)) c))"
    using fin x by (simp add: sum.remove [of B x])
  also have "(\<Sum>c\<in>B - {x}. weight m ((g(x \<mapsto> v)) c)) = (\<Sum>c\<in>B - {x}. weight m (g c))"
    by (rule sum.cong) auto
  also have "weight m (Some v) + (\<Sum>c\<in>B - {x}. weight m (g c))
      < weight m (g x) + (\<Sum>c\<in>B - {x}. weight m (g c))"
    using less by simp
  also have "weight m (g x) + (\<Sum>c\<in>B - {x}. weight m (g c)) = (\<Sum>c\<in>B. weight m (g c))"
    using fin x by (simp add: sum.remove [of B x])
  finally show ?thesis .
qed

lemma visit_potential:
  assumes inv: "fin_inv B s"
    and cur: "costSoFar s current = Some currentCost"
    and inB: "isFree (fst current + fst dir, snd current + snd dir) \<or>
              (fst current + fst dir, snd current + snd dir) = to \<Longrightarrow>
              (fst current + fst dir, snd current + snd dir) \<in> B"
  shows "fin_inv B (visit isFree to current currentCost s dir) \<and>
         potential B (visit isFree to current currentCost s dir) \<le> potential B s"
proof -
  define nxt where "nxt = (fst current + fst dir, snd current + snd dir)"
  define pushed where "pushed = s\<lparr>costSoFar := (costSoFar s)(nxt \<mapsto> currentCost + 1),
                    pq := pq_push (pq s) \<lparr>coord = nxt, priority = currentCost + 1 + heuristic nxt to\<rparr>,
                    cameFrom := (cameFrom s)(nxt \<mapsto> Some current)\<rparr>"
  have v: "visit isFree to current currentCost s dir =
      (if \<not> isFree nxt \<and> nxt \<noteq> to then s
       else case costSoFar s nxt of None \<Rightarrow> pushed
            | Some e \<Rightarrow> if currentCost + 1 < e then pushed else s)"
    unfolding visit_def Let_def nxt_def pushed_def by (rule refl)
  have fin: "finite B" and sub: "dom (costSoFar s) \<subseteq> B"
    and bnd: "\<And>c k. costSoFar s c = Some k \<Longrightarrow> 0 \<le> k \<and> k < int (card (dom (costSoFar s)))"
    using inv unfolding fin_inv_def by blast+
  have fd: "finite (dom (costSoFar s))" using fin sub by (rule rev_finite_subset)
  have ck: "0 \<le> currentCost" "currentCost < int (card (dom (costSoFar s)))"
    using bnd [OF cur] by simp_all
  have pushed: "fin_inv B pushed \<and> potential B pushed \<le> potential B s"
    if free: "isFree nxt \<or> nxt = to"
      and low: "\<And>e. costSoFar s nxt = Some e \<Longrightarrow> currentCost + 1 < e"
  proof -
    have nB: "nxt \<in> B" using inB free unfolding nxt_def by blast
    have dom': "dom (costSoFar pushed) = insert nxt (dom (costSoFar s))"
      by (simp add: pushed_def)
    have card': "card (dom (costSoFar s)) \<le> card (dom (costSoFar pushed))"
      unfolding dom' using fd by (simp add: card_insert_le)
    have new: "currentCost + 1 < int (card (dom (costSoFar pushed)))"
    proof (cases "costSoFar s nxt")
      case None
      then have "nxt \<notin> dom (costSoFar s)" by auto
      then have "card (dom (costSoFar pushed)) = Suc (card (dom (costSoFar s)))"
        unfolding dom' using fd by simp
      then show ?thesis using ck by simp
    next
      case (Some e)
      then show ?thesis using low [OF Some] bnd [OF Some] card' by simp
    qed
    have inv': "fin_inv B pushed"
      unfolding fin_inv_def
    proof (intro conjI allI impI)
      show "finite B" by (rule fin)
      show "dom (costSoFar pushed) \<subseteq> B" unfolding dom' using sub nB by simp
    next
      fix c k assume c: "costSoFar pushed c = Some k"
      show "0 \<le> k" using c bnd [of c k] ck by (auto simp add: pushed_def split: if_splits)
      show "k < int (card (dom (costSoFar pushed)))"
      proof (cases "c = nxt")
        case True
        then show ?thesis using c new by (simp add: pushed_def)
      next
        case False
        then have "costSoFar s c = Some k" using c by (simp add: pushed_def)
        then show ?thesis using bnd [of c k] card' by simp
      qed
    qed
    have cardB: "card (dom (costSoFar pushed)) \<le> card B"
      using inv' fin unfolding fin_inv_def by (simp add: card_mono)
    have less: "weight (card B) (Some (currentCost + 1)) < weight (card B) (costSoFar s nxt)"
    proof (cases "costSoFar s nxt")
      case None
      then show ?thesis using new cardB ck by (simp add: weight_def)
    next
      case (Some e)
      then show ?thesis using low [OF Some] ck by (simp add: weight_def)
    qed
    have "(\<Sum>c\<in>B. weight (card B) (costSoFar pushed c)) < (\<Sum>c\<in>B. weight (card B) (costSoFar s c))"
      using sum_weight_update [of B nxt "card B" "currentCost + 1" "costSoFar s", OF fin nB less]
      by (simp add: pushed_def)
    then have "potential B pushed \<le> potential B s"
      by (simp add: potential_def pushed_def)
    with inv' show ?thesis ..
  qed
  show ?thesis
  proof (cases "\<not> isFree nxt \<and> nxt \<noteq> to")
    case True
    then have "visit isFree to current currentCost s dir = s" unfolding v by simp
    then show ?thesis using inv by simp
  next
    case free: False
    show ?thesis
    proof (cases "costSoFar s nxt")
      case None
      then have "visit isFree to current currentCost s dir = pushed"
        unfolding v using free by auto
      moreover have "fin_inv B pushed \<and> potential B pushed \<le> potential B s"
        using free None by (intro pushed) auto
      ultimately show ?thesis by simp
    next
      case (Some e)
      show ?thesis
      proof (cases "currentCost + 1 < e")
        case True
        then have "visit isFree to current currentCost s dir = pushed"
          unfolding v using free Some by auto
        moreover have "fin_inv B pushed \<and> potential B pushed \<le> potential B s"
          using free Some True by (intro pushed) auto
        ultimately show ?thesis by simp
      next
        case False
        then have "visit isFree to current currentCost s dir = s"
          unfolding v using free Some by auto
        then show ?thesis using inv by simp
      qed
    qed
  qed
qed

lemma visit_cases:
  fixes isFree to current k s dir
  defines "nxt \<equiv> (fst current + fst dir, snd current + snd dir)"
  obtains (same) "visit isFree to current k s dir = s"
  | (pushed) "isFree nxt \<or> nxt = to" "\<And>e. costSoFar s nxt = Some e \<Longrightarrow> k + 1 < e"
      "visit isFree to current k s dir =
         s\<lparr>costSoFar := (costSoFar s)(nxt \<mapsto> k + 1),
           pq := pq_push (pq s) \<lparr>coord = nxt, priority = k + 1 + heuristic nxt to\<rparr>,
           cameFrom := (cameFrom s)(nxt \<mapsto> Some current)\<rparr>"
proof -
  have v: "visit isFree to current k s dir =
      (if \<not> isFree nxt \<and> nxt \<noteq> to then s
       else case costSoFar s nxt of
              None \<Rightarrow> s\<lparr>costSoFar := (costSoFar s)(nxt \<mapsto> k + 1),
                  pq := pq_push (pq s) \<lparr>coord = nxt, priority = k + 1 + heuristic nxt to\<rparr>,
                  cameFrom := (cameFrom s)(nxt \<mapsto> Some current)\<rparr>
            | Some e \<Rightarrow> if k + 1 < e
                then s\<lparr>costSoFar := (costSoFar s)(nxt \<mapsto> k + 1),
                  pq := pq_push (pq s) \<lparr>coord = nxt, priority = k + 1 + heuristic nxt to\<rparr>,
                  cameFrom := (cameFrom s)(nxt \<mapsto> Some current)\<rparr>
                else s)"
    unfolding visit_def Let_def nxt_def by (rule refl)
  show thesis
  proof (cases "\<not> isFree nxt \<and> nxt \<noteq> to")
    case True
    then show ?thesis using same v by simp
  next
    case free: False
    show ?thesis
    proof (cases "costSoFar s nxt")
      case None
      have "visit isFree to current k s dir =
         s\<lparr>costSoFar := (costSoFar s)(nxt \<mapsto> k + 1),
           pq := pq_push (pq s) \<lparr>coord = nxt, priority = k + 1 + heuristic nxt to\<rparr>,
           cameFrom := (cameFrom s)(nxt \<mapsto> Some current)\<rparr>"
        unfolding v using free None by auto
      then show ?thesis using pushed free None by auto
    next
      case (Some e)
      show ?thesis
      proof (cases "k + 1 < e")
        case True
        have "visit isFree to current k s dir =
           s\<lparr>costSoFar := (costSoFar s)(nxt \<mapsto> k + 1),
             pq := pq_push (pq s) \<lparr>coord = nxt, priority = k + 1 + heuristic nxt to\<rparr>,
             cameFrom := (cameFrom s)(nxt \<mapsto> Some current)\<rparr>"
          unfolding v using free Some True by auto
        then show ?thesis using pushed free Some True by auto
      next
        case False
        then show ?thesis using same v free Some by auto
      qed
    qed
  qed
qed

lemma next_not_current:
  "dir \<in> set directions \<Longrightarrow> (fst current + fst dir, snd current + snd dir) \<noteq> current"
  by (cases current) (auto simp add: directions_def)

lemma visit_keeps_current:
  assumes dir: "dir \<in> set directions" and cur: "costSoFar s current = Some k"
  shows "costSoFar (visit isFree to current k s dir) current = Some k"
  using next_not_current [OF dir, of current] cur
  by (cases rule: visit_cases [of isFree to current k s dir]) simp_all

lemma visit_fold_potential:
  "fin_inv B s \<Longrightarrow> costSoFar s current = Some k \<Longrightarrow> set dirs \<subseteq> set directions \<Longrightarrow>
   (\<And>d. d \<in> set dirs \<Longrightarrow>
      isFree (fst current + fst d, snd current + snd d) \<or>
      (fst current + fst d, snd current + snd d) = to \<Longrightarrow>
      (fst current + fst d, snd current + snd d) \<in> B) \<Longrightarrow>
   fin_inv B (foldl (visit isFree to current k) s dirs) \<and>
   potential B (foldl (visit isFree to current k) s dirs) \<le> potential B s"
proof (induction dirs arbitrary: s)
  case Nil
  then show ?case by simp
next
  case (Cons d dirs)
  have d: "d \<in> set directions" using Cons.prems(3) by simp
  have v: "fin_inv B (visit isFree to current k s d) \<and>
      potential B (visit isFree to current k s d) \<le> potential B s"
    using Cons.prems(1,2) by (rule visit_potential) (rule Cons.prems(4), simp_all)
  have c: "costSoFar (visit isFree to current k s d) current = Some k"
    using d Cons.prems(2) by (rule visit_keeps_current)
  have "fin_inv B (foldl (visit isFree to current k) (visit isFree to current k s d) dirs) \<and>
      potential B (foldl (visit isFree to current k) (visit isFree to current k s d) dirs)
        \<le> potential B (visit isFree to current k s d)"
    using v c Cons.prems(3) by (intro Cons.IH) (simp_all add: Cons.prems(4))
  then show ?case using v by simp
qed

lemma reconstruct_total:
  assumes inv: "tree_inv isFree from to s"
  shows "costSoFar s c = Some k \<Longrightarrow> \<exists>path. reconstruct (cameFrom s) c acc = Some path"
proof (induction "nat k" arbitrary: c k acc rule: less_induct)
  case less
  note D = tree_invD [OF inv]
  obtain v where v: "cameFrom s c = Some v" using D(10) [OF less.prems] by auto
  show ?case
  proof (cases v)
    case None
    then show ?thesis using v by (subst reconstruct.simps) simp
  next
    case (Some p)
    then have cp: "cameFrom s c = Some (Some p)" using v by simp
    obtain k' kp where k: "costSoFar s c = Some k'" "costSoFar s p = Some kp" "kp + 1 \<le> k'"
      using D(8) [OF cp] by blast
    have "0 \<le> kp" using D(9) [OF k(2)] .
    then have "nat kp < nat k" using k less.prems by simp
    from less.hyps [OF this k(2)] obtain path where
      "reconstruct (cameFrom s) p (c # acc) = Some path" by blast
    then show ?thesis using cp by (subst reconstruct.simps) simp
  qed
qed

lemma search_total:
  assumes init: "I s0"
    and tree: "\<And>s. I s \<Longrightarrow> tree_inv isFree from to s"
    and fin: "\<And>s. I s \<Longrightarrow> fin_inv B s"
    and step: "\<And>s item rest k. I s \<Longrightarrow> pq s = item # rest \<Longrightarrow> coord item \<noteq> to \<Longrightarrow>
        costSoFar s (coord item) = Some k \<Longrightarrow>
        I (foldl (visit isFree to (coord item) k) (s\<lparr>pq := rest\<rparr>) directions)"
    and inB: "\<And>s item rest d. I s \<Longrightarrow> pq s = item # rest \<Longrightarrow> coord item \<noteq> to \<Longrightarrow>
        d \<in> set directions \<Longrightarrow>
        isFree (fst (coord item) + fst d, snd (coord item) + snd d) \<or>
        (fst (coord item) + fst d, snd (coord item) + snd d) = to \<Longrightarrow>
        (fst (coord item) + fst d, snd (coord item) + snd d) \<in> B"
  shows "\<exists>r. search isFree to s0 = Some r"
  using init
proof (induction "potential B s0" arbitrary: s0 rule: less_induct)
  case less
  note I = less.prems
  show ?case
  proof (cases "pq s0")
    case Nil
    then show ?thesis by (subst search.simps) simp
  next
    case (Cons item rest)
    obtain k where k: "costSoFar s0 (coord item) = Some k"
      using tree_invD(11) [OF tree [OF I], of item] Cons by auto
    show ?thesis
    proof (cases "coord item = to")
      case True
      obtain path where "reconstruct (cameFrom s0) to [] = Some path"
        using reconstruct_total [OF tree [OF I]] k True by metis
      then show ?thesis using Cons True by (subst search.simps) (simp add: Let_def)
    next
      case False
      let ?s' = "foldl (visit isFree to (coord item) k) (s0\<lparr>pq := rest\<rparr>) directions"
      have popfin: "fin_inv B (s0\<lparr>pq := rest\<rparr>)"
        using fin [OF I] by (simp add: fin_inv_def)
      have "fin_inv B ?s' \<and> potential B ?s' \<le> potential B (s0\<lparr>pq := rest\<rparr>)"
        using popfin
      proof (rule visit_fold_potential)
        show "costSoFar (s0\<lparr>pq := rest\<rparr>) (coord item) = Some k" using k by simp
        show "set directions \<subseteq> set directions" by simp
      next
        fix d assume "d \<in> set directions"
          "isFree (fst (coord item) + fst d, snd (coord item) + snd d) \<or>
           (fst (coord item) + fst d, snd (coord item) + snd d) = to"
        then show "(fst (coord item) + fst d, snd (coord item) + snd d) \<in> B"
          by (rule inB [OF I Cons False])
      qed
      moreover have "potential B (s0\<lparr>pq := rest\<rparr>) < potential B s0"
        using Cons by (simp add: potential_def)
      ultimately have "potential B ?s' < potential B s0" by simp
      from less.hyps [OF this step [OF I Cons False k]]
      show ?thesis using Cons False k by (subst search.simps) (simp add: Let_def)
    qed
  qed
qed

lemma initial_fin_inv:
  "finite B \<Longrightarrow> from \<in> B \<Longrightarrow>
   fin_inv B \<lparr>pq = pq_push [] \<lparr>coord = from, priority = 0\<rparr>,
      costSoFar = [from \<mapsto> 0], cameFrom = [from \<mapsto> None]\<rparr>"
  by (simp add: fin_inv_def)

subsection \<open>The grid without obstacles\<close>

text \<open>The Manhattan distance between two cells.\<close>

definition dist :: "GridCoord \<Rightarrow> GridCoord \<Rightarrow> int" where
  "dist a b = \<bar>fst a - fst b\<bar> + \<bar>snd a - snd b\<bar>"

lemma dist_self [simp]: "dist a a = 0"
  by (simp add: dist_def)

lemma dist_nonneg: "0 \<le> dist a b"
  by (simp add: dist_def)

lemma dist_triangle: "dist a c \<le> dist a b + dist b c"
  by (simp add: dist_def)

lemma dist_sym: "dist a b = dist b a"
  by (simp add: dist_def)

lemma adjacent_dist: "adjacent a b = (dist a b = 1)"
  by (simp add: adjacent_def dist_def)

lemma dist_parity: "even (dist a c) = even (dist a b + dist b c)"
  by (auto simp add: dist_def)

lemma heuristic_bounds: "dist a b \<le> heuristic a b \<and> heuristic a b \<le> dist a b + 1"
  by (simp add: heuristic_def dist_def Let_def)

lemma heuristic_self [simp]: "heuristic a a = 0"
  by (simp add: heuristic_def)

lemma dist_step:
  "d \<in> set directions \<Longrightarrow> dist a (fst c + fst d, snd c + snd d) \<le> dist a c + 1"
  by (auto simp add: directions_def dist_def)

lemma dist_step':
  "d \<in> set directions \<Longrightarrow> dist (fst c + fst d, snd c + snd d) a \<le> dist c a + 1"
  by (auto simp add: directions_def dist_def)

lemma closer_direction:
  assumes "c \<noteq> to"
  shows "\<exists>d \<in> set directions. dist (fst c + fst d, snd c + snd d) to = dist c to - 1"
proof (cases "fst c = fst to")
  case True
  with assms have ne: "snd c \<noteq> snd to" by (cases c; cases to) auto
  show ?thesis
  proof (cases "snd c < snd to")
    case True
    then show ?thesis using \<open>fst c = fst to\<close>
      by (intro bexI [of _ "(0, 1)"]) (auto simp add: directions_def dist_def)
  next
    case False
    then show ?thesis using \<open>fst c = fst to\<close> ne
      by (intro bexI [of _ "(0, - 1)"]) (auto simp add: directions_def dist_def)
  qed
next
  case False
  show ?thesis
  proof (cases "fst c < fst to")
    case True
    then show ?thesis
      by (intro bexI [of _ "(1, 0)"]) (auto simp add: directions_def dist_def)
  next
    case F: False
    then show ?thesis using False
      by (intro bexI [of _ "(- 1, 0)"]) (auto simp add: directions_def dist_def)
  qed
qed

lemma walk_length:
  "successively adjacent p \<Longrightarrow> p \<noteq> [] \<Longrightarrow>
   dist (hd p) (last p) \<le> int (length p) - 1 \<and>
   even (int (length p) - 1 - dist (hd p) (last p))"
proof (induction p rule: induct_list012)
  case 1
  then show ?case by simp
next
  case (2 x)
  then show ?case by simp
next
  case (3 a b r)
  have ab: "dist a b = 1" using "3.prems" by (simp add: adjacent_dist)
  have IH: "dist b (last (b # r)) \<le> int (length (b # r)) - 1 \<and>
      even (int (length (b # r)) - 1 - dist b (last (b # r)))"
    using "3.IH"(2) "3.prems" by simp
  let ?z = "last (b # r)"
  have tri: "dist a ?z \<le> dist a b + dist b ?z" by (rule dist_triangle)
  have par: "even (dist a ?z) = even (1 + dist b ?z)"
    using dist_parity [of a ?z b] ab by simp
  have "dist a ?z \<le> int (length (a # b # r)) - 1" using tri ab IH by simp
  moreover have "even (int (length (a # b # r)) - 1 - dist a ?z)"
    using par IH by auto
  ultimately show ?case by simp
qed

lemma region_finite: "finite {c. dist a c + dist c b \<le> n}"
proof -
  have "{c. dist a c + dist c b \<le> n} \<subseteq> {fst a - n .. fst a + n} \<times> {snd a - n .. snd a + n}"
    by (auto simp add: dist_def)
  then show ?thesis by (rule finite_subset) simp
qed

lemma visit_free_cases:
  fixes to current k s dir
  defines "nxt \<equiv> (fst current + fst dir, snd current + snd dir)"
  obtains (same) e where "costSoFar s nxt = Some e" "e \<le> k + 1"
      "visit (\<lambda>_. True) to current k s dir = s"
  | (pushed) "\<And>e. costSoFar s nxt = Some e \<Longrightarrow> k + 1 < e"
      "visit (\<lambda>_. True) to current k s dir =
         s\<lparr>costSoFar := (costSoFar s)(nxt \<mapsto> k + 1),
           pq := pq_push (pq s) \<lparr>coord = nxt, priority = k + 1 + heuristic nxt to\<rparr>,
           cameFrom := (cameFrom s)(nxt \<mapsto> Some current)\<rparr>"
proof (cases "costSoFar s nxt")
  case None
  have "visit (\<lambda>_. True) to current k s dir =
         s\<lparr>costSoFar := (costSoFar s)(nxt \<mapsto> k + 1),
           pq := pq_push (pq s) \<lparr>coord = nxt, priority = k + 1 + heuristic nxt to\<rparr>,
           cameFrom := (cameFrom s)(nxt \<mapsto> Some current)\<rparr>"
    using None unfolding visit_def Let_def nxt_def by simp
  then show ?thesis using pushed None by simp
next
  case (Some e)
  show ?thesis
  proof (cases "k + 1 < e")
    case True
    have "visit (\<lambda>_. True) to current k s dir =
         s\<lparr>costSoFar := (costSoFar s)(nxt \<mapsto> k + 1),
           pq := pq_push (pq s) \<lparr>coord = nxt, priority = k + 1 + heuristic nxt to\<rparr>,
           cameFrom := (cameFrom s)(nxt \<mapsto> Some current)\<rparr>"
      using Some True unfolding visit_def Let_def nxt_def by simp
    then show ?thesis using pushed Some True by simp
  next
    case False
    have "visit (\<lambda>_. True) to current k s dir = s"
      using Some False unfolding visit_def Let_def nxt_def by simp
    then show ?thesis using same [OF Some] False by simp
  qed
qed

text \<open>
  On the grid without obstacles the search stays near the rectangle between start and
  goal: \<open>region\<close> holds every cell that can get a cost. The invariants say that a cost
  is at least the distance from the start, that a queued cell was queued with its cost
  plus the heuristic (the start with 0), that the queue is sorted, that the goal stays
  queued once it has a cost, and that a cell with a cost is still queued with a priority
  no larger than that cost plus the heuristic, or has passed its cost plus one on to its
  four neighbours. Together they keep an item of priority at most the distance plus one in
  the queue, which bounds every cell taken from the queue.
\<close>

definition region :: "GridCoord \<Rightarrow> GridCoord \<Rightarrow> GridCoord set" where
  "region from to = {c. dist from c + dist c to \<le> dist from to + 3}"

definition bounds_inv :: "GridCoord \<Rightarrow> GridCoord \<Rightarrow> search_state \<Rightarrow> bool" where
  "bounds_inv from to s =
     ((\<forall>c k. costSoFar s c = Some k \<longrightarrow> dist from c \<le> k) \<and>
      (\<forall>item \<in> set (pq s). \<exists>k. costSoFar s (coord item) = Some k \<and>
          (k + heuristic (coord item) to \<le> priority item \<or> coord item = from)) \<and>
      sorted (map priority (pq s)) \<and>
      (\<forall>k. costSoFar s to = Some k \<longrightarrow> \<lparr>coord = to, priority = k\<rparr> \<in> set (pq s)))"

definition closed_inv :: "GridCoord set \<Rightarrow> GridCoord \<Rightarrow> search_state \<Rightarrow> bool" where
  "closed_inv X to s =
     (\<forall>c k. costSoFar s c = Some k \<longrightarrow> c \<noteq> to \<longrightarrow> c \<notin> X \<longrightarrow>
        (\<exists>item \<in> set (pq s). coord item = c \<and> priority item \<le> k + heuristic c to) \<or>
        (\<forall>d \<in> set directions. \<exists>k'.
           costSoFar s (fst c + fst d, snd c + snd d) = Some k' \<and> k' \<le> k + 1))"

definition open_inv :: "GridCoord \<Rightarrow> GridCoord \<Rightarrow> search_state \<Rightarrow> bool" where
  "open_inv from to s =
     (tree_inv (\<lambda>_. True) from to s \<and> fin_inv (region from to) s \<and>
      bounds_inv from to s \<and> closed_inv {} to s)"

definition mid_inv ::
  "GridCoord \<Rightarrow> GridCoord \<Rightarrow> GridCoord \<Rightarrow> int \<Rightarrow> GridCoord list \<Rightarrow> search_state \<Rightarrow> bool" where
  "mid_inv from to current k done s =
     (tree_inv (\<lambda>_. True) from to s \<and> fin_inv (region from to) s \<and>
      bounds_inv from to s \<and> closed_inv {current} to s \<and>
      costSoFar s current = Some k \<and>
      dist from current + dist current to \<le> dist from to + 1 \<and>
      (\<forall>d \<in> set done. \<exists>k'.
         costSoFar s (fst current + fst d, snd current + snd d) = Some k' \<and> k' \<le> k + 1))"

lemma bounds_invD:
  assumes "bounds_inv from to s"
  shows "\<And>c k. costSoFar s c = Some k \<Longrightarrow> dist from c \<le> k"
    and "\<And>item. item \<in> set (pq s) \<Longrightarrow> \<exists>k. costSoFar s (coord item) = Some k \<and>
          (k + heuristic (coord item) to \<le> priority item \<or> coord item = from)"
    and "sorted (map priority (pq s))"
    and "\<And>k. costSoFar s to = Some k \<Longrightarrow> \<lparr>coord = to, priority = k\<rparr> \<in> set (pq s)"
  using assms unfolding bounds_inv_def by blast+

lemma closed_invD:
  assumes "closed_inv X to s" "costSoFar s c = Some k" "c \<noteq> to" "c \<notin> X"
  shows "(\<exists>item \<in> set (pq s). coord item = c \<and> priority item \<le> k + heuristic c to) \<or>
        (\<forall>d \<in> set directions. \<exists>k'.
           costSoFar s (fst c + fst d, snd c + snd d) = Some k' \<and> k' \<le> k + 1)"
  using assms unfolding closed_inv_def by blast

lemma frontier_exists:
  assumes b: "bounds_inv from to s" and cl: "closed_inv {} to s"
  shows "costSoFar s c = Some (dist from c) \<Longrightarrow> dist from c + dist c to = dist from to \<Longrightarrow>
         \<exists>item \<in> set (pq s). priority item \<le> dist from to + 1"
proof (induction "nat (dist c to)" arbitrary: c rule: less_induct)
  case less
  note B = bounds_invD [OF b]
  show ?case
  proof (cases "c = to")
    case True
    then have "\<lparr>coord = to, priority = dist from to\<rparr> \<in> set (pq s)"
      using B(4) less.prems(1) by simp
    then show ?thesis by (intro bexI [of _ "\<lparr>coord = to, priority = dist from to\<rparr>"]) simp_all
  next
    case False
    from closed_invD [OF cl less.prems(1) False]
    consider (queued) "\<exists>item \<in> set (pq s). coord item = c \<and>
          priority item \<le> dist from c + heuristic c to"
      | (expanded) "\<forall>d \<in> set directions. \<exists>k'.
           costSoFar s (fst c + fst d, snd c + snd d) = Some k' \<and> k' \<le> dist from c + 1"
      by auto
    then show ?thesis
    proof cases
      case queued
      have "dist from c + heuristic c to \<le> dist from to + 1"
        using heuristic_bounds [of c to] less.prems(2) by simp
      then show ?thesis using queued by force
    next
      case expanded
      obtain d where d: "d \<in> set directions"
        and closer: "dist (fst c + fst d, snd c + snd d) to = dist c to - 1"
        using closer_direction [OF False] by blast
      let ?n = "(fst c + fst d, snd c + snd d)"
      obtain k' where k': "costSoFar s ?n = Some k'" "k' \<le> dist from c + 1"
        using expanded d by blast
      have lb: "dist from ?n \<le> k'" using B(1) [OF k'(1)] .
      have "dist from to \<le> dist from ?n + dist ?n to" by (rule dist_triangle)
      then have "dist from c + 1 \<le> dist from ?n" using closer less.prems(2) by simp
      then have eq: "k' = dist from ?n" "dist from ?n = dist from c + 1" using lb k'(2) by simp_all
      have "nat (dist ?n to) < nat (dist c to)"
        using closer dist_nonneg [of ?n to] by simp
      moreover have "costSoFar s ?n = Some (dist from ?n)" using k'(1) eq by simp
      moreover have "dist from ?n + dist ?n to = dist from to"
        using eq closer less.prems(2) by simp
      ultimately show ?thesis by (rule less.hyps)
    qed
  qed
qed

lemma head_priority:
  assumes inv: "open_inv from to s" and pq: "pq s = item # rest"
  shows "priority item \<le> dist from to + 1"
proof -
  have t: "tree_inv (\<lambda>_. True) from to s" and b: "bounds_inv from to s"
    and cl: "closed_inv {} to s"
    using inv unfolding open_inv_def by simp_all
  have "costSoFar s from = Some (dist from from)" using tree_invD(2) [OF t] by simp
  moreover have "dist from from + dist from to = dist from to" by simp
  ultimately obtain item' where i: "item' \<in> set (pq s)" "priority item' \<le> dist from to + 1"
    using frontier_exists [OF b cl] by blast
  have "sorted (map priority (item # rest))" using bounds_invD(3) [OF b] pq by simp
  then have "priority item \<le> priority item'" using i(1) pq by auto
  then show ?thesis using i(2) by simp
qed

lemma sorted_pq_push: "sorted (map priority (pq_push items item))"
  by (simp add: pq_push_def)

lemma open_inv_pop:
  assumes inv: "open_inv from to s" and pq: "pq s = item # rest"
    and ne: "coord item \<noteq> to" and k: "costSoFar s (coord item) = Some k"
  shows "mid_inv from to (coord item) k [] (s\<lparr>pq := rest\<rparr>)"
proof -
  have t: "tree_inv (\<lambda>_. True) from to s" and f: "fin_inv (region from to) s"
    and b: "bounds_inv from to s" and cl: "closed_inv {} to s"
    using inv unfolding open_inv_def by simp_all
  note B = bounds_invD [OF b]
  have hp: "priority item \<le> dist from to + 1" using inv pq by (rule head_priority)
  obtain k0 where "costSoFar s (coord item) = Some k0"
      "k0 + heuristic (coord item) to \<le> priority item \<or> coord item = from"
    using B(2) [of item] pq by auto
  then have kh: "k + heuristic (coord item) to \<le> priority item \<or> coord item = from"
    using k by simp
  have "dist from (coord item) \<le> k" using B(1) [OF k] .
  then have near: "dist from (coord item) + dist (coord item) to \<le> dist from to + 1"
    using kh hp heuristic_bounds [of "coord item" to] by auto
  have t': "tree_inv (\<lambda>_. True) from to (s\<lparr>pq := rest\<rparr>)"
    using t pq unfolding tree_inv_def by simp
  have f': "fin_inv (region from to) (s\<lparr>pq := rest\<rparr>)"
    using f unfolding fin_inv_def by simp
  have b': "bounds_inv from to (s\<lparr>pq := rest\<rparr>)"
    unfolding bounds_inv_def
  proof (intro conjI allI impI ballI)
    fix c k assume "costSoFar (s\<lparr>pq := rest\<rparr>) c = Some k"
    then show "dist from c \<le> k" using B(1) [of c k] by simp
  next
    fix i assume "i \<in> set (pq (s\<lparr>pq := rest\<rparr>))"
    then show "\<exists>k. costSoFar (s\<lparr>pq := rest\<rparr>) (coord i) = Some k \<and>
        (k + heuristic (coord i) to \<le> priority i \<or> coord i = from)"
      using B(2) [of i] pq by simp
  next
    show "sorted (map priority (pq (s\<lparr>pq := rest\<rparr>)))" using B(3) pq by simp
  next
    fix k assume "costSoFar (s\<lparr>pq := rest\<rparr>) to = Some k"
    then have "\<lparr>coord = to, priority = k\<rparr> \<in> set (pq s)" using B(4) [of k] by simp
    then show "\<lparr>coord = to, priority = k\<rparr> \<in> set (pq (s\<lparr>pq := rest\<rparr>))"
      using pq ne by auto
  qed
  have c': "closed_inv {coord item} to (s\<lparr>pq := rest\<rparr>)"
    unfolding closed_inv_def
  proof (intro allI impI)
    fix c kc
    assume c: "costSoFar (s\<lparr>pq := rest\<rparr>) c = Some kc" "c \<noteq> to" "c \<notin> {coord item}"
    from closed_invD [OF cl _ c(2)] c(1)
    have "(\<exists>i \<in> set (pq s). coord i = c \<and> priority i \<le> kc + heuristic c to) \<or>
        (\<forall>d \<in> set directions. \<exists>k'.
           costSoFar s (fst c + fst d, snd c + snd d) = Some k' \<and> k' \<le> kc + 1)"
      by simp
    then show "(\<exists>i \<in> set (pq (s\<lparr>pq := rest\<rparr>)). coord i = c \<and> priority i \<le> kc + heuristic c to) \<or>
        (\<forall>d \<in> set directions. \<exists>k'.
           costSoFar (s\<lparr>pq := rest\<rparr>) (fst c + fst d, snd c + snd d) = Some k' \<and> k' \<le> kc + 1)"
      using pq c(3) by auto
  qed
  show ?thesis
    unfolding mid_inv_def using t' f' b' c' k near by simp
qed

lemma mid_inv_finish:
  assumes inv: "mid_inv from to current k ds s" and all: "set directions \<subseteq> set ds"
  shows "open_inv from to s"
proof -
  have cl: "closed_inv {current} to s" and cur: "costSoFar s current = Some k"
    and dn: "\<forall>d \<in> set ds. \<exists>k'.
         costSoFar s (fst current + fst d, snd current + snd d) = Some k' \<and> k' \<le> k + 1"
    using inv unfolding mid_inv_def by simp_all
  have "closed_inv {} to s"
    unfolding closed_inv_def
  proof (intro allI impI)
    fix c kc assume c: "costSoFar s c = Some kc" "c \<noteq> to"
    show "(\<exists>i \<in> set (pq s). coord i = c \<and> priority i \<le> kc + heuristic c to) \<or>
        (\<forall>d \<in> set directions. \<exists>k'.
           costSoFar s (fst c + fst d, snd c + snd d) = Some k' \<and> k' \<le> kc + 1)"
    proof (cases "c = current")
      case True
      then have "kc = k" using c(1) cur by simp
      then show ?thesis using dn all True by blast
    next
      case False
      then show ?thesis using closed_invD [OF cl c] by simp
    qed
  qed
  then show ?thesis using inv unfolding mid_inv_def open_inv_def by simp
qed

lemma mid_inv_visit:
  assumes inv: "mid_inv from to current k ds s" and d: "d \<in> set directions"
  shows "mid_inv from to current k (d # ds) (visit (\<lambda>_. True) to current k s d)"
proof -
  define nxt where "nxt = (fst current + fst d, snd current + snd d)"
  have t: "tree_inv (\<lambda>_. True) from to s" and f: "fin_inv (region from to) s"
    and b: "bounds_inv from to s" and cl: "closed_inv {current} to s"
    and cur: "costSoFar s current = Some k"
    and near: "dist from current + dist current to \<le> dist from to + 1"
    and dn: "\<forall>d \<in> set ds. \<exists>k'.
         costSoFar s (fst current + fst d, snd current + snd d) = Some k' \<and> k' \<le> k + 1"
    using inv unfolding mid_inv_def by simp_all
  note B = bounds_invD [OF b]
  have nc: "nxt \<noteq> current" unfolding nxt_def using d by (rule next_not_current)
  have inR: "nxt \<in> region from to"
    using dist_step [OF d, of "from" current] dist_step' [OF d, of current to] near
    unfolding region_def nxt_def by simp
  have t': "tree_inv (\<lambda>_. True) from to (visit (\<lambda>_. True) to current k s d)"
    using visit_tree_inv [OF t cur d] by simp
  have f': "fin_inv (region from to) (visit (\<lambda>_. True) to current k s d)"
    using visit_potential [OF f cur, of "\<lambda>_. True" d to] inR unfolding nxt_def by simp
  show ?thesis
  proof (cases rule: visit_free_cases [of s current d k to])
    case (same e)
    have "\<forall>d' \<in> set (d # ds). \<exists>k'.
         costSoFar s (fst current + fst d', snd current + snd d') = Some k' \<and> k' \<le> k + 1"
      using dn same(1,2) by auto
    then show ?thesis
      unfolding same(3) using inv unfolding mid_inv_def by simp
  next
    case pushed
    define s' where "s' = s\<lparr>costSoFar := (costSoFar s)(nxt \<mapsto> k + 1),
           pq := pq_push (pq s) \<lparr>coord = nxt, priority = k + 1 + heuristic nxt to\<rparr>,
           cameFrom := (cameFrom s)(nxt \<mapsto> Some current)\<rparr>"
    have vs: "visit (\<lambda>_. True) to current k s d = s'"
      using pushed(2) unfolding s'_def nxt_def .
    have low: "\<And>e. costSoFar s nxt = Some e \<Longrightarrow> k + 1 < e"
      using pushed(1) unfolding nxt_def .
    have co: "\<And>c. costSoFar s' c = (if c = nxt then Some (k + 1) else costSoFar s c)"
      and pqs: "set (pq s') = insert \<lparr>coord = nxt, priority = k + 1 + heuristic nxt to\<rparr> (set (pq s))"
      by (simp_all add: s'_def)
    have down: "\<And>c e. costSoFar s c = Some e \<Longrightarrow> \<exists>e'. costSoFar s' c = Some e' \<and> e' \<le> e"
      using low by (auto simp add: co)
    have b': "bounds_inv from to s'"
      unfolding bounds_inv_def
    proof (intro conjI allI impI ballI)
      fix c kc assume c: "costSoFar s' c = Some kc"
      show "dist from c \<le> kc"
      proof (cases "c = nxt")
        case True
        then show ?thesis
          using c B(1) [OF cur] dist_step [OF d, of "from" current]
          by (simp add: co nxt_def)
      next
        case False
        then show ?thesis using c B(1) [of c kc] by (simp add: co)
      qed
    next
      fix i assume i: "i \<in> set (pq s')"
      show "\<exists>kc. costSoFar s' (coord i) = Some kc \<and>
          (kc + heuristic (coord i) to \<le> priority i \<or> coord i = from)"
      proof (cases "i \<in> set (pq s)")
        case True
        then obtain kc where kc: "costSoFar s (coord i) = Some kc"
            "kc + heuristic (coord i) to \<le> priority i \<or> coord i = from"
          using B(2) by blast
        from down [OF kc(1)] obtain e' where "costSoFar s' (coord i) = Some e'" "e' \<le> kc"
          by blast
        then show ?thesis using kc(2) by auto
      next
        case False
        then have "i = \<lparr>coord = nxt, priority = k + 1 + heuristic nxt to\<rparr>"
          using i by (simp add: pqs)
        then show ?thesis by (simp add: co)
      qed
    next
      show "sorted (map priority (pq s'))" by (simp add: s'_def sorted_pq_push)
    next
      fix kt assume kt: "costSoFar s' to = Some kt"
      show "\<lparr>coord = to, priority = kt\<rparr> \<in> set (pq s')"
      proof (cases "to = nxt")
        case True
        then show ?thesis using kt by (simp add: co pqs)
      next
        case False
        then have "costSoFar s to = Some kt" using kt by (simp add: co)
        then show ?thesis using B(4) by (simp add: pqs)
      qed
    qed
    have cl': "closed_inv {current} to s'"
      unfolding closed_inv_def
    proof (intro allI impI)
      fix c kc
      assume c: "costSoFar s' c = Some kc" "c \<noteq> to" "c \<notin> {current}"
      show "(\<exists>i \<in> set (pq s'). coord i = c \<and> priority i \<le> kc + heuristic c to) \<or>
        (\<forall>d \<in> set directions. \<exists>k'.
           costSoFar s' (fst c + fst d, snd c + snd d) = Some k' \<and> k' \<le> kc + 1)"
      proof (cases "c = nxt")
        case True
        then have "kc = k + 1" using c(1) by (simp add: co)
        then show ?thesis using True by (simp add: pqs)
      next
        case False
        then have old: "costSoFar s c = Some kc" using c(1) by (simp add: co)
        from closed_invD [OF cl old c(2,3)]
        show ?thesis
        proof
          assume "\<exists>i \<in> set (pq s). coord i = c \<and> priority i \<le> kc + heuristic c to"
          then show ?thesis by (auto simp add: pqs)
        next
          assume ex: "\<forall>d \<in> set directions. \<exists>k'.
             costSoFar s (fst c + fst d, snd c + snd d) = Some k' \<and> k' \<le> kc + 1"
          have "\<forall>d \<in> set directions. \<exists>k'.
             costSoFar s' (fst c + fst d, snd c + snd d) = Some k' \<and> k' \<le> kc + 1"
          proof
            fix d' assume "d' \<in> set directions"
            then obtain k' where k': "costSoFar s (fst c + fst d', snd c + snd d') = Some k'"
                "k' \<le> kc + 1"
              using ex by blast
            from down [OF k'(1)] k'(2)
            show "\<exists>k'. costSoFar s' (fst c + fst d', snd c + snd d') = Some k' \<and> k' \<le> kc + 1"
              by force
          qed
          then show ?thesis ..
        qed
      qed
    qed
    have cur': "costSoFar s' current = Some k" using cur nc by (simp add: co)
    have dn': "\<forall>d' \<in> set (d # ds). \<exists>k'.
         costSoFar s' (fst current + fst d', snd current + snd d') = Some k' \<and> k' \<le> k + 1"
    proof
      fix d' assume d': "d' \<in> set (d # ds)"
      show "\<exists>k'. costSoFar s' (fst current + fst d', snd current + snd d') = Some k' \<and> k' \<le> k + 1"
      proof (cases "(fst current + fst d', snd current + snd d') = nxt")
        case True
        then show ?thesis by (simp add: co)
      next
        case False
        then have "d' \<in> set ds" using d' by (auto simp add: nxt_def)
        then obtain k' where k': "costSoFar s (fst current + fst d', snd current + snd d') = Some k'"
            "k' \<le> k + 1"
          using dn by blast
        from down [OF k'(1)] k'(2) show ?thesis by force
      qed
    qed
    show ?thesis
      unfolding mid_inv_def
      using t' f' b' cl' cur' near dn' unfolding vs by simp
  qed
qed

lemma mid_inv_fold:
  "mid_inv from to current k ds s \<Longrightarrow> set dirs \<subseteq> set directions \<Longrightarrow>
   mid_inv from to current k (rev dirs @ ds) (foldl (visit (\<lambda>_. True) to current k) s dirs)"
proof (induction dirs arbitrary: s ds)
  case Nil
  then show ?case by simp
next
  case (Cons d dirs)
  have "mid_inv from to current k (d # ds) (visit (\<lambda>_. True) to current k s d)"
    using Cons.prems by (intro mid_inv_visit) simp_all
  from Cons.IH [OF this] Cons.prems(2) show ?case by simp
qed

lemma open_inv_step:
  assumes inv: "open_inv from to s" and pq: "pq s = item # rest"
    and ne: "coord item \<noteq> to" and k: "costSoFar s (coord item) = Some k"
  shows "open_inv from to
     (foldl (visit (\<lambda>_. True) to (coord item) k) (s\<lparr>pq := rest\<rparr>) directions)"
proof -
  have "mid_inv from to (coord item) k [] (s\<lparr>pq := rest\<rparr>)"
    using inv pq ne k by (rule open_inv_pop)
  then have "mid_inv from to (coord item) k (rev directions @ [])
      (foldl (visit (\<lambda>_. True) to (coord item) k) (s\<lparr>pq := rest\<rparr>) directions)"
    by (rule mid_inv_fold) simp
  then show ?thesis by (rule mid_inv_finish) simp
qed

lemma initial_open_inv:
  "open_inv from to
     \<lparr>pq = pq_push [] \<lparr>coord = from, priority = 0\<rparr>,
      costSoFar = [from \<mapsto> 0], cameFrom = [from \<mapsto> None]\<rparr>"
proof -
  have "from \<in> region from to" by (simp add: region_def)
  then have "fin_inv (region from to)
     \<lparr>pq = pq_push [] \<lparr>coord = from, priority = 0\<rparr>,
      costSoFar = [from \<mapsto> 0], cameFrom = [from \<mapsto> None]\<rparr>"
    using region_finite [of "from" to] by (intro initial_fin_inv) (simp_all add: region_def)
  moreover have "bounds_inv from to
     \<lparr>pq = pq_push [] \<lparr>coord = from, priority = 0\<rparr>,
      costSoFar = [from \<mapsto> 0], cameFrom = [from \<mapsto> None]\<rparr>"
    using dist_nonneg [of "from" to] heuristic_bounds [of "from" to]
    by (auto simp add: bounds_inv_def split: if_splits)
  moreover have "closed_inv {} to
     \<lparr>pq = pq_push [] \<lparr>coord = from, priority = 0\<rparr>,
      costSoFar = [from \<mapsto> 0], cameFrom = [from \<mapsto> None]\<rparr>"
    using dist_nonneg [of "from" to] heuristic_bounds [of "from" to]
    by (auto simp add: closed_inv_def split: if_splits)
  ultimately show ?thesis
    using initial_tree_inv [of "\<lambda>_. True" "from" to] by (simp add: open_inv_def)
qed

lemma search_open_total:
  assumes "open_inv from to s"
  shows "\<exists>r. search (\<lambda>_. True) to s = Some r"
  using assms
proof (rule search_total [where I = "open_inv from to" and B = "region from to"])
  fix s assume "open_inv from to s"
  then show "tree_inv (\<lambda>_. True) from to s" and "fin_inv (region from to) s"
    unfolding open_inv_def by simp_all
next
  fix s item rest k
  assume "open_inv from to s" "pq s = item # rest" "coord item \<noteq> to"
    "costSoFar s (coord item) = Some k"
  then show "open_inv from to
     (foldl (visit (\<lambda>_. True) to (coord item) k) (s\<lparr>pq := rest\<rparr>) directions)"
    by (rule open_inv_step)
next
  fix s item rest d
  assume inv: "open_inv from to s" and pq: "pq s = item # rest" and ne: "coord item \<noteq> to"
    and d: "d \<in> set directions"
  obtain k where k: "costSoFar s (coord item) = Some k"
    using inv pq tree_invD(11) [of "\<lambda>_. True" "from" to s item] unfolding open_inv_def by auto
  have "mid_inv from to (coord item) k [] (s\<lparr>pq := rest\<rparr>)"
    using inv pq ne k by (rule open_inv_pop)
  then have "dist from (coord item) + dist (coord item) to \<le> dist from to + 1"
    unfolding mid_inv_def by simp
  then show "(fst (coord item) + fst d, snd (coord item) + snd d) \<in> region from to"
    using dist_step [OF d, of "from" "coord item"] dist_step' [OF d, of "coord item" to]
    unfolding region_def by simp
qed

lemma search_open_result:
  assumes run: "search (\<lambda>_. True) to s0 = Some r" and inv0: "open_inv from to s0"
  shows "\<exists>path. r = Inr path \<and> int (length path) - 1 = dist from to \<and>
     successively adjacent path \<and> hd path = from \<and> last path = to"
proof (rule search_rule [OF run, where I = "open_inv from to"])
  show "open_inv from to s0" by (rule inv0)
next
  fix s item rest k
  assume "open_inv from to s" "pq s = item # rest" "coord item \<noteq> to"
    "costSoFar s (coord item) = Some k"
  then show "open_inv from to
     (foldl (visit (\<lambda>_. True) to (coord item) k) (s\<lparr>pq := rest\<rparr>) directions)"
    by (rule open_inv_step)
next
  fix s item rest
  assume "open_inv from to s" "pq s = item # rest"
  then show "costSoFar s (coord item) \<noteq> None"
    using tree_invD(11) [of "\<lambda>_. True" "from" to s item] unfolding open_inv_def by auto
next
  fix s assume inv: "open_inv from to s" and e: "pq s = []"
  have t: "tree_inv (\<lambda>_. True) from to s" and b: "bounds_inv from to s"
    and cl: "closed_inv {} to s"
    using inv unfolding open_inv_def by simp_all
  have "costSoFar s from = Some (dist from from)" using tree_invD(2) [OF t] by simp
  moreover have "dist from from + dist from to = dist from to" by simp
  ultimately have "\<exists>item \<in> set (pq s). priority item \<le> dist from to + 1"
    by (rule frontier_exists [OF b cl])
  then have False using e by simp
  then show "\<exists>path. Inl NoPathFound = Inr path \<and> int (length path) - 1 = dist from to \<and>
     successively adjacent path \<and> hd path = from \<and> last path = to" ..
next
  fix s item rest path
  assume inv: "open_inv from to s" and pq: "pq s = item # rest"
    and goal: "coord item = to" and rec: "reconstruct (cameFrom s) to [] = Some path"
  have t: "tree_inv (\<lambda>_. True) from to s" and b: "bounds_inv from to s"
    using inv unfolding open_inv_def by simp_all
  have hp: "priority item \<le> dist from to + 1" using inv pq by (rule head_priority)
  obtain k where k: "costSoFar s to = Some k" "k + heuristic to to \<le> priority item \<or> to = from"
    using bounds_invD(2) [OF b, of item] pq goal by auto
  have kb: "k \<le> dist from to + 1"
    using k hp tree_invD(2) [OF t] dist_nonneg [of "from" to] by auto
  have "cameFrom s to \<noteq> None" using k(1) by (rule tree_invD(10) [OF t])
  from reconstruct_sound [OF rec t this]
  obtain pre where pre: "path = pre @ [to]" "hd (pre @ [to]) = from"
    "successively adjacent (pre @ [to])" "int (length pre) \<le> k"
    using k(1) by blast
  have w: "dist (hd path) (last path) \<le> int (length path) - 1 \<and>
      even (int (length path) - 1 - dist (hd path) (last path))"
    using pre(1,3) by (intro walk_length) simp_all
  have hl: "hd path = from" "last path = to" "int (length path) - 1 = int (length pre)"
    using pre(1,2) by simp_all
  have lo: "dist from to \<le> int (length pre)" and ev: "even (int (length pre) - dist from to)"
    using w unfolding hl by simp_all
  have "int (length pre) = dist from to"
  proof (rule ccontr)
    assume "int (length pre) \<noteq> dist from to"
    then have "int (length pre) - dist from to = 1" using lo pre(4) kb by simp
    then show False using ev by simp
  qed
  then show "\<exists>p. Inr path = Inr p \<and> int (length p) - 1 = dist from to \<and>
     successively adjacent p \<and> hd p = from \<and> last p = to"
    using hl pre(1,3) by simp
qed

text \<open>
  Claim C3. On a grid where every cell is free, \<open>getPath\<close> returns a path (it ends, and
  without error) from the start to the goal whose number of steps is the Manhattan
  distance between them and whose consecutive cells are grid-adjacent, although the
  heuristic overestimates by one when both coordinates still differ.
\<close>

theorem getPath_free_grid:
  "\<exists>path. getPath from to (\<lambda>_. True) = Some (Inr path) \<and>
     int (length path) - 1 = \<bar>fst from - fst to\<bar> + \<bar>snd from - snd to\<bar> \<and>
     successively adjacent path \<and> hd path = from \<and> last path = to"
proof -
  let ?s0 = "\<lparr>pq = pq_push [] \<lparr>coord = from, priority = 0\<rparr>,
      costSoFar = [from \<mapsto> 0], cameFrom = [from \<mapsto> None]\<rparr>"
  obtain r where r: "search (\<lambda>_. True) to ?s0 = Some r"
    using search_open_total [OF initial_open_inv] by blast
  from search_open_result [OF r initial_open_inv] r
  show ?thesis unfolding getPath_def dist_def by auto
qed

subsection \<open>Which searches end\<close>

text \<open>
  A walk goes from the start by grid steps, each onto a cell that is free or the goal:
  these are the steps that the loop of the search takes. \<open>walk isFree to start n c\<close> is a
  walk of \<open>n\<close> steps from \<open>start\<close> to \<open>c\<close>; a cell is reachable when a walk ends there.
\<close>

inductive walk :: "(GridCoord \<Rightarrow> bool) \<Rightarrow> GridCoord \<Rightarrow> GridCoord \<Rightarrow> nat \<Rightarrow> GridCoord \<Rightarrow> bool"
  for isFree :: "GridCoord \<Rightarrow> bool" and to :: GridCoord and start :: GridCoord where
  walk_start: "walk isFree to start 0 start"
| walk_step: "walk isFree to start n a \<Longrightarrow> adjacent a b \<Longrightarrow> isFree b \<or> b = to \<Longrightarrow>
     walk isFree to start (Suc n) b"

definition reachable :: "(GridCoord \<Rightarrow> bool) \<Rightarrow> GridCoord \<Rightarrow> GridCoord \<Rightarrow> GridCoord \<Rightarrow> bool" where
  "reachable isFree from to c = (\<exists>n. walk isFree to from n c)"

text \<open>
  The invariant that ties the costs to the queue: a cell with a cost, other than the goal
  and the cells of \<open>X\<close>, is still queued with a priority no larger than its cost plus the
  heuristic, or each of its neighbours that is free or the goal has a cost that is at most
  one more. \<open>expanding\<close> is the state inside the loop over the directions, where the
  cell taken from the queue has passed its cost on in the directions \<open>ds\<close> only.
\<close>

definition closure_inv :: "(GridCoord \<Rightarrow> bool) \<Rightarrow> GridCoord set \<Rightarrow> GridCoord \<Rightarrow> search_state \<Rightarrow> bool" where
  "closure_inv isFree X to s =
     (\<forall>c k. costSoFar s c = Some k \<longrightarrow> c \<noteq> to \<longrightarrow> c \<notin> X \<longrightarrow>
        (\<exists>item \<in> set (pq s). coord item = c \<and> priority item \<le> k + heuristic c to) \<or>
        (\<forall>d \<in> set directions.
           isFree (fst c + fst d, snd c + snd d) \<or> (fst c + fst d, snd c + snd d) = to \<longrightarrow>
           (\<exists>k'. costSoFar s (fst c + fst d, snd c + snd d) = Some k' \<and> k' \<le> k + 1)))"

definition expanding ::
  "(GridCoord \<Rightarrow> bool) \<Rightarrow> GridCoord \<Rightarrow> GridCoord \<Rightarrow> int \<Rightarrow> GridCoord list \<Rightarrow> search_state \<Rightarrow> bool" where
  "expanding isFree to current k ds s =
     (closure_inv isFree {current} to s \<and> costSoFar s current = Some k \<and>
      (\<forall>d \<in> set ds.
         isFree (fst current + fst d, snd current + snd d) \<or>
         (fst current + fst d, snd current + snd d) = to \<longrightarrow>
         (\<exists>k'. costSoFar s (fst current + fst d, snd current + snd d) = Some k' \<and> k' \<le> k + 1)))"

lemma reachable_start: "reachable isFree from to from"
  unfolding reachable_def by (blast intro: walk_start)

lemma reachable_step:
  "reachable isFree from to a \<Longrightarrow> adjacent a b \<Longrightarrow> isFree b \<or> b = to \<Longrightarrow>
   reachable isFree from to b"
  unfolding reachable_def by (blast intro: walk_step)

lemma reachable_induct:
  assumes "reachable isFree from to c" and "P from"
    and "\<And>a b. P a \<Longrightarrow> adjacent a b \<Longrightarrow> isFree b \<or> b = to \<Longrightarrow> P b"
  shows "P c"
proof -
  obtain n where "walk isFree to from n c" using assms(1) unfolding reachable_def by blast
  then show ?thesis by induction (use assms(2,3) in blast)+
qed

lemma walk_dist: "walk isFree to start n c \<Longrightarrow> dist start c \<le> int n"
proof (induction rule: walk.induct)
  case walk_start
  then show ?case by simp
next
  case (walk_step n a b)
  have "dist start b \<le> dist start a + dist a b" by (rule dist_triangle)
  then show ?case using walk_step.IH walk_step.hyps(2) by (simp add: adjacent_dist)
qed

lemma adjacent_direction:
  assumes "adjacent a b"
  shows "\<exists>d \<in> set directions. b = (fst a + fst d, snd a + snd d)"
proof -
  obtain x y where a: "a = (x, y)" by (cases a)
  obtain u v where b: "b = (u, v)" by (cases b)
  have "\<bar>x - u\<bar> + \<bar>y - v\<bar> = 1" using assms by (simp add: adjacent_def a b)
  then have "(u = x + 1 \<and> v = y) \<or> (u = x - 1 \<and> v = y) \<or> (u = x \<and> v = y + 1) \<or>
      (u = x \<and> v = y - 1)"
    by arith
  then show ?thesis by (auto simp add: a b directions_def)
qed

lemma closure_invD:
  assumes "closure_inv isFree X to s" "costSoFar s c = Some k" "c \<noteq> to" "c \<notin> X"
  shows "(\<exists>item \<in> set (pq s). coord item = c \<and> priority item \<le> k + heuristic c to) \<or>
        (\<forall>d \<in> set directions.
           isFree (fst c + fst d, snd c + snd d) \<or> (fst c + fst d, snd c + snd d) = to \<longrightarrow>
           (\<exists>k'. costSoFar s (fst c + fst d, snd c + snd d) = Some k' \<and> k' \<le> k + 1))"
  using assms unfolding closure_inv_def by blast

lemma visit_cases3:
  fixes isFree to current k s dir
  defines "nxt \<equiv> (fst current + fst dir, snd current + snd dir)"
  obtains (blocked) "\<not> isFree nxt" "nxt \<noteq> to" "visit isFree to current k s dir = s"
  | (same) e where "costSoFar s nxt = Some e" "e \<le> k + 1" "visit isFree to current k s dir = s"
  | (pushed) "isFree nxt \<or> nxt = to" "\<And>e. costSoFar s nxt = Some e \<Longrightarrow> k + 1 < e"
      "visit isFree to current k s dir =
         s\<lparr>costSoFar := (costSoFar s)(nxt \<mapsto> k + 1),
           pq := pq_push (pq s) \<lparr>coord = nxt, priority = k + 1 + heuristic nxt to\<rparr>,
           cameFrom := (cameFrom s)(nxt \<mapsto> Some current)\<rparr>"
proof (cases "\<not> isFree nxt \<and> nxt \<noteq> to")
  case True
  then have "visit isFree to current k s dir = s"
    unfolding visit_def Let_def nxt_def by simp
  then show ?thesis using blocked True by simp
next
  case free: False
  show ?thesis
  proof (cases "costSoFar s nxt")
    case None
    have "visit isFree to current k s dir =
         s\<lparr>costSoFar := (costSoFar s)(nxt \<mapsto> k + 1),
           pq := pq_push (pq s) \<lparr>coord = nxt, priority = k + 1 + heuristic nxt to\<rparr>,
           cameFrom := (cameFrom s)(nxt \<mapsto> Some current)\<rparr>"
      using free None unfolding visit_def Let_def nxt_def by auto
    then show ?thesis using pushed free None by auto
  next
    case (Some e)
    show ?thesis
    proof (cases "k + 1 < e")
      case True
      have "visit isFree to current k s dir =
           s\<lparr>costSoFar := (costSoFar s)(nxt \<mapsto> k + 1),
             pq := pq_push (pq s) \<lparr>coord = nxt, priority = k + 1 + heuristic nxt to\<rparr>,
             cameFrom := (cameFrom s)(nxt \<mapsto> Some current)\<rparr>"
        using free Some True unfolding visit_def Let_def nxt_def by auto
      then show ?thesis using pushed free Some True by auto
    next
      case False
      have "visit isFree to current k s dir = s"
        using free Some False unfolding visit_def Let_def nxt_def by auto
      then show ?thesis using same [OF Some] False by simp
    qed
  qed
qed

lemma closure_pop:
  assumes cl: "closure_inv isFree {} to s" and pq: "pq s = item # rest"
    and k: "costSoFar s (coord item) = Some k"
  shows "expanding isFree to (coord item) k [] (s\<lparr>pq := rest\<rparr>)"
proof -
  have "closure_inv isFree {coord item} to (s\<lparr>pq := rest\<rparr>)"
    unfolding closure_inv_def
  proof (intro allI impI)
    fix c kc
    assume c: "costSoFar (s\<lparr>pq := rest\<rparr>) c = Some kc" "c \<noteq> to" "c \<notin> {coord item}"
    have "costSoFar s c = Some kc" using c(1) by simp
    from closure_invD [OF cl this c(2)]
    have "(\<exists>i \<in> set (pq s). coord i = c \<and> priority i \<le> kc + heuristic c to) \<or>
        (\<forall>d \<in> set directions.
           isFree (fst c + fst d, snd c + snd d) \<or> (fst c + fst d, snd c + snd d) = to \<longrightarrow>
           (\<exists>k'. costSoFar s (fst c + fst d, snd c + snd d) = Some k' \<and> k' \<le> kc + 1))"
      by simp
    then show "(\<exists>i \<in> set (pq (s\<lparr>pq := rest\<rparr>)). coord i = c \<and> priority i \<le> kc + heuristic c to) \<or>
        (\<forall>d \<in> set directions.
           isFree (fst c + fst d, snd c + snd d) \<or> (fst c + fst d, snd c + snd d) = to \<longrightarrow>
           (\<exists>k'. costSoFar (s\<lparr>pq := rest\<rparr>) (fst c + fst d, snd c + snd d) = Some k' \<and>
              k' \<le> kc + 1))"
      using pq c(3) by auto
  qed
  then show ?thesis unfolding expanding_def using k by simp
qed

lemma expanding_finish:
  assumes inv: "expanding isFree to current k ds s" and all: "set directions \<subseteq> set ds"
  shows "closure_inv isFree {} to s"
proof -
  have cl: "closure_inv isFree {current} to s" and cur: "costSoFar s current = Some k"
    and dn: "\<forall>d \<in> set ds.
         isFree (fst current + fst d, snd current + snd d) \<or>
         (fst current + fst d, snd current + snd d) = to \<longrightarrow>
         (\<exists>k'. costSoFar s (fst current + fst d, snd current + snd d) = Some k' \<and> k' \<le> k + 1)"
    using inv unfolding expanding_def by simp_all
  show ?thesis
    unfolding closure_inv_def
  proof (intro allI impI)
    fix c kc assume c: "costSoFar s c = Some kc" "c \<noteq> to" "c \<notin> {}"
    show "(\<exists>i \<in> set (pq s). coord i = c \<and> priority i \<le> kc + heuristic c to) \<or>
        (\<forall>d \<in> set directions.
           isFree (fst c + fst d, snd c + snd d) \<or> (fst c + fst d, snd c + snd d) = to \<longrightarrow>
           (\<exists>k'. costSoFar s (fst c + fst d, snd c + snd d) = Some k' \<and> k' \<le> kc + 1))"
    proof (cases "c = current")
      case True
      then have "kc = k" using c(1) cur by simp
      then show ?thesis using dn all True by blast
    next
      case False
      then show ?thesis using closure_invD [OF cl c(1,2)] by simp
    qed
  qed
qed

lemma expanding_visit:
  assumes inv: "expanding isFree to current k ds s" and d: "d \<in> set directions"
  shows "expanding isFree to current k (d # ds) (visit isFree to current k s d)"
proof -
  define nxt where "nxt = (fst current + fst d, snd current + snd d)"
  have cl: "closure_inv isFree {current} to s" and cur: "costSoFar s current = Some k"
    and dn: "\<forall>d \<in> set ds.
         isFree (fst current + fst d, snd current + snd d) \<or>
         (fst current + fst d, snd current + snd d) = to \<longrightarrow>
         (\<exists>k'. costSoFar s (fst current + fst d, snd current + snd d) = Some k' \<and> k' \<le> k + 1)"
    using inv unfolding expanding_def by simp_all
  have nc: "nxt \<noteq> current" unfolding nxt_def using d by (rule next_not_current)
  show ?thesis
  proof (cases rule: visit_cases3 [of isFree current d to k s])
    case blocked
    have "\<forall>d' \<in> set (d # ds).
         isFree (fst current + fst d', snd current + snd d') \<or>
         (fst current + fst d', snd current + snd d') = to \<longrightarrow>
         (\<exists>k'. costSoFar s (fst current + fst d', snd current + snd d') = Some k' \<and> k' \<le> k + 1)"
      using dn blocked(1,2) by auto
    then show ?thesis unfolding blocked(3) using cl cur unfolding expanding_def by simp
  next
    case (same e)
    have "\<forall>d' \<in> set (d # ds).
         isFree (fst current + fst d', snd current + snd d') \<or>
         (fst current + fst d', snd current + snd d') = to \<longrightarrow>
         (\<exists>k'. costSoFar s (fst current + fst d', snd current + snd d') = Some k' \<and> k' \<le> k + 1)"
      using dn same(1,2) by auto
    then show ?thesis unfolding same(3) using cl cur unfolding expanding_def by simp
  next
    case pushed
    define s' where "s' = s\<lparr>costSoFar := (costSoFar s)(nxt \<mapsto> k + 1),
           pq := pq_push (pq s) \<lparr>coord = nxt, priority = k + 1 + heuristic nxt to\<rparr>,
           cameFrom := (cameFrom s)(nxt \<mapsto> Some current)\<rparr>"
    have vs: "visit isFree to current k s d = s'"
      using pushed(3) unfolding s'_def nxt_def .
    have low: "\<And>e. costSoFar s nxt = Some e \<Longrightarrow> k + 1 < e"
      using pushed(2) unfolding nxt_def .
    have co: "\<And>c. costSoFar s' c = (if c = nxt then Some (k + 1) else costSoFar s c)"
      and pqs: "set (pq s') = insert \<lparr>coord = nxt, priority = k + 1 + heuristic nxt to\<rparr> (set (pq s))"
      by (simp_all add: s'_def)
    have down: "\<And>c e. costSoFar s c = Some e \<Longrightarrow> \<exists>e'. costSoFar s' c = Some e' \<and> e' \<le> e"
      using low by (auto simp add: co)
    have cl': "closure_inv isFree {current} to s'"
      unfolding closure_inv_def
    proof (intro allI impI)
      fix c kc
      assume c: "costSoFar s' c = Some kc" "c \<noteq> to" "c \<notin> {current}"
      show "(\<exists>i \<in> set (pq s'). coord i = c \<and> priority i \<le> kc + heuristic c to) \<or>
        (\<forall>d \<in> set directions.
           isFree (fst c + fst d, snd c + snd d) \<or> (fst c + fst d, snd c + snd d) = to \<longrightarrow>
           (\<exists>k'. costSoFar s' (fst c + fst d, snd c + snd d) = Some k' \<and> k' \<le> kc + 1))"
      proof (cases "c = nxt")
        case True
        then have "kc = k + 1" using c(1) by (simp add: co)
        then show ?thesis using True by (simp add: pqs)
      next
        case False
        then have old: "costSoFar s c = Some kc" using c(1) by (simp add: co)
        from closure_invD [OF cl old c(2,3)]
        show ?thesis
        proof
          assume "\<exists>i \<in> set (pq s). coord i = c \<and> priority i \<le> kc + heuristic c to"
          then show ?thesis by (auto simp add: pqs)
        next
          assume ex: "\<forall>d \<in> set directions.
             isFree (fst c + fst d, snd c + snd d) \<or> (fst c + fst d, snd c + snd d) = to \<longrightarrow>
             (\<exists>k'. costSoFar s (fst c + fst d, snd c + snd d) = Some k' \<and> k' \<le> kc + 1)"
          have "\<forall>d \<in> set directions.
             isFree (fst c + fst d, snd c + snd d) \<or> (fst c + fst d, snd c + snd d) = to \<longrightarrow>
             (\<exists>k'. costSoFar s' (fst c + fst d, snd c + snd d) = Some k' \<and> k' \<le> kc + 1)"
          proof (intro ballI impI)
            fix d' assume "d' \<in> set directions"
              "isFree (fst c + fst d', snd c + snd d') \<or> (fst c + fst d', snd c + snd d') = to"
            then obtain k' where k': "costSoFar s (fst c + fst d', snd c + snd d') = Some k'"
                "k' \<le> kc + 1"
              using ex by blast
            from down [OF k'(1)] k'(2)
            show "\<exists>k'. costSoFar s' (fst c + fst d', snd c + snd d') = Some k' \<and> k' \<le> kc + 1"
              by force
          qed
          then show ?thesis ..
        qed
      qed
    qed
    have cur': "costSoFar s' current = Some k" using cur nc by (simp add: co)
    have dn': "\<forall>d' \<in> set (d # ds).
         isFree (fst current + fst d', snd current + snd d') \<or>
         (fst current + fst d', snd current + snd d') = to \<longrightarrow>
         (\<exists>k'. costSoFar s' (fst current + fst d', snd current + snd d') = Some k' \<and> k' \<le> k + 1)"
    proof (intro ballI impI)
      fix d' assume d': "d' \<in> set (d # ds)"
        and free: "isFree (fst current + fst d', snd current + snd d') \<or>
         (fst current + fst d', snd current + snd d') = to"
      show "\<exists>k'. costSoFar s' (fst current + fst d', snd current + snd d') = Some k' \<and> k' \<le> k + 1"
      proof (cases "(fst current + fst d', snd current + snd d') = nxt")
        case True
        then show ?thesis by (simp add: co)
      next
        case False
        then have "d' \<in> set ds" using d' by (auto simp add: nxt_def)
        then obtain k' where k': "costSoFar s (fst current + fst d', snd current + snd d') = Some k'"
            "k' \<le> k + 1"
          using dn free by blast
        from down [OF k'(1)] k'(2) show ?thesis by force
      qed
    qed
    show ?thesis
      unfolding expanding_def vs using cl' cur' dn' by simp
  qed
qed

lemma expanding_fold:
  "expanding isFree to current k ds s \<Longrightarrow> set dirs \<subseteq> set directions \<Longrightarrow>
   expanding isFree to current k (rev dirs @ ds) (foldl (visit isFree to current k) s dirs)"
proof (induction dirs arbitrary: s ds)
  case Nil
  then show ?case by simp
next
  case (Cons d dirs)
  have "expanding isFree to current k (d # ds) (visit isFree to current k s d)"
    using Cons.prems by (intro expanding_visit) simp_all
  from Cons.IH [OF this] Cons.prems(2) show ?case by simp
qed

lemma closure_step:
  assumes cl: "closure_inv isFree {} to s" and pq: "pq s = item # rest"
    and k: "costSoFar s (coord item) = Some k"
  shows "closure_inv isFree {} to
     (foldl (visit isFree to (coord item) k) (s\<lparr>pq := rest\<rparr>) directions)"
proof -
  have "expanding isFree to (coord item) k [] (s\<lparr>pq := rest\<rparr>)"
    using cl pq k by (rule closure_pop)
  then have "expanding isFree to (coord item) k (rev directions @ [])
      (foldl (visit isFree to (coord item) k) (s\<lparr>pq := rest\<rparr>) directions)"
    by (rule expanding_fold) simp
  then show ?thesis by (rule expanding_finish) simp
qed

lemma initial_closure_inv:
  "closure_inv isFree {} to
     \<lparr>pq = pq_push [] \<lparr>coord = from, priority = 0\<rparr>,
      costSoFar = [from \<mapsto> 0], cameFrom = [from \<mapsto> None]\<rparr>"
  using heuristic_bounds [of "from" to] dist_nonneg [of "from" to]
  by (auto simp add: closure_inv_def split: if_splits)

lemma bounds_pop:
  assumes b: "bounds_inv from to s" and pq: "pq s = item # rest" and ne: "coord item \<noteq> to"
  shows "bounds_inv from to (s\<lparr>pq := rest\<rparr>)"
proof -
  note B = bounds_invD [OF b]
  show ?thesis
    unfolding bounds_inv_def
  proof (intro conjI allI impI ballI)
    fix c k assume "costSoFar (s\<lparr>pq := rest\<rparr>) c = Some k"
    then show "dist from c \<le> k" using B(1) [of c k] by simp
  next
    fix i assume "i \<in> set (pq (s\<lparr>pq := rest\<rparr>))"
    then show "\<exists>k. costSoFar (s\<lparr>pq := rest\<rparr>) (coord i) = Some k \<and>
        (k + heuristic (coord i) to \<le> priority i \<or> coord i = from)"
      using B(2) [of i] pq by simp
  next
    show "sorted (map priority (pq (s\<lparr>pq := rest\<rparr>)))" using B(3) pq by simp
  next
    fix k assume "costSoFar (s\<lparr>pq := rest\<rparr>) to = Some k"
    then have "\<lparr>coord = to, priority = k\<rparr> \<in> set (pq s)" using B(4) [of k] by simp
    then show "\<lparr>coord = to, priority = k\<rparr> \<in> set (pq (s\<lparr>pq := rest\<rparr>))"
      using pq ne by auto
  qed
qed

lemma bounds_visit:
  assumes b: "bounds_inv from to s" and cur: "costSoFar s current = Some k"
    and d: "d \<in> set directions"
  shows "bounds_inv from to (visit isFree to current k s d)"
proof -
  define nxt where "nxt = (fst current + fst d, snd current + snd d)"
  note B = bounds_invD [OF b]
  show ?thesis
  proof (cases rule: visit_cases [of isFree to current k s d])
    case same
    then show ?thesis using b by simp
  next
    case pushed
    define s' where "s' = s\<lparr>costSoFar := (costSoFar s)(nxt \<mapsto> k + 1),
           pq := pq_push (pq s) \<lparr>coord = nxt, priority = k + 1 + heuristic nxt to\<rparr>,
           cameFrom := (cameFrom s)(nxt \<mapsto> Some current)\<rparr>"
    have vs: "visit isFree to current k s d = s'"
      using pushed(3) unfolding s'_def nxt_def .
    have low: "\<And>e. costSoFar s nxt = Some e \<Longrightarrow> k + 1 < e"
      using pushed(2) unfolding nxt_def .
    have co: "\<And>c. costSoFar s' c = (if c = nxt then Some (k + 1) else costSoFar s c)"
      and pqs: "set (pq s') = insert \<lparr>coord = nxt, priority = k + 1 + heuristic nxt to\<rparr> (set (pq s))"
      by (simp_all add: s'_def)
    have down: "\<And>c e. costSoFar s c = Some e \<Longrightarrow> \<exists>e'. costSoFar s' c = Some e' \<and> e' \<le> e"
      using low by (auto simp add: co)
    have "bounds_inv from to s'"
      unfolding bounds_inv_def
    proof (intro conjI allI impI ballI)
      fix c kc assume c: "costSoFar s' c = Some kc"
      show "dist from c \<le> kc"
      proof (cases "c = nxt")
        case True
        then show ?thesis
          using c B(1) [OF cur] dist_step [OF d, of "from" current]
          by (simp add: co nxt_def)
      next
        case False
        then show ?thesis using c B(1) [of c kc] by (simp add: co)
      qed
    next
      fix i assume i: "i \<in> set (pq s')"
      show "\<exists>kc. costSoFar s' (coord i) = Some kc \<and>
          (kc + heuristic (coord i) to \<le> priority i \<or> coord i = from)"
      proof (cases "i \<in> set (pq s)")
        case True
        then obtain kc where kc: "costSoFar s (coord i) = Some kc"
            "kc + heuristic (coord i) to \<le> priority i \<or> coord i = from"
          using B(2) by blast
        from down [OF kc(1)] obtain e' where "costSoFar s' (coord i) = Some e'" "e' \<le> kc"
          by blast
        then show ?thesis using kc(2) by auto
      next
        case False
        then have "i = \<lparr>coord = nxt, priority = k + 1 + heuristic nxt to\<rparr>"
          using i by (simp add: pqs)
        then show ?thesis by (simp add: co)
      qed
    next
      show "sorted (map priority (pq s'))" by (simp add: s'_def sorted_pq_push)
    next
      fix kt assume kt: "costSoFar s' to = Some kt"
      show "\<lparr>coord = to, priority = kt\<rparr> \<in> set (pq s')"
      proof (cases "to = nxt")
        case True
        then show ?thesis using kt by (simp add: co pqs)
      next
        case False
        then have "costSoFar s to = Some kt" using kt by (simp add: co)
        then show ?thesis using B(4) by (simp add: pqs)
      qed
    qed
    then show ?thesis unfolding vs .
  qed
qed

lemma bounds_fold:
  "bounds_inv from to s \<Longrightarrow> costSoFar s current = Some k \<Longrightarrow> set dirs \<subseteq> set directions \<Longrightarrow>
   bounds_inv from to (foldl (visit isFree to current k) s dirs)"
proof (induction dirs arbitrary: s)
  case Nil
  then show ?case by simp
next
  case (Cons d dirs)
  have d: "d \<in> set directions" using Cons.prems(3) by simp
  have b: "bounds_inv from to (visit isFree to current k s d)"
    using Cons.prems(1,2) d by (rule bounds_visit)
  have c: "costSoFar (visit isFree to current k s d) current = Some k"
    using d Cons.prems(2) by (rule visit_keeps_current)
  show ?case using Cons.IH [OF b c] Cons.prems(3) by simp
qed

lemma bounds_step:
  assumes b: "bounds_inv from to s" and pq: "pq s = item # rest" and ne: "coord item \<noteq> to"
    and k: "costSoFar s (coord item) = Some k"
  shows "bounds_inv from to (foldl (visit isFree to (coord item) k) (s\<lparr>pq := rest\<rparr>) directions)"
proof -
  have "bounds_inv from to (s\<lparr>pq := rest\<rparr>)" using b pq ne by (rule bounds_pop)
  moreover have "costSoFar (s\<lparr>pq := rest\<rparr>) (coord item) = Some k" using k by simp
  ultimately show ?thesis by (rule bounds_fold) simp
qed

lemma initial_bounds_inv:
  "bounds_inv from to
     \<lparr>pq = pq_push [] \<lparr>coord = from, priority = 0\<rparr>,
      costSoFar = [from \<mapsto> 0], cameFrom = [from \<mapsto> None]\<rparr>"
  using dist_nonneg [of "from" to] heuristic_bounds [of "from" to]
  by (auto simp add: bounds_inv_def split: if_splits)

text \<open>
  While the goal is reachable the queue is not empty: along a walk to the goal, the first
  cell that has not passed its cost on is queued, with a priority bounded in terms of the
  length of the walk.
\<close>

lemma frontier_walk:
  assumes t: "tree_inv isFree from to s" and b: "bounds_inv from to s"
    and cl: "closure_inv isFree {} to s"
  shows "walk isFree to from n c \<Longrightarrow>
     (\<exists>item \<in> set (pq s). priority item \<le> 2 * int n + dist from to + 1) \<or>
     (\<exists>k. costSoFar s c = Some k \<and> k \<le> int n)"
proof (induction rule: walk.induct)
  case walk_start
  then show ?case using tree_invD(2) [OF t] by simp
next
  case (walk_step n a b')
  note B = bounds_invD [OF b]
  from walk_step.IH show ?case
  proof
    assume "\<exists>item \<in> set (pq s). priority item \<le> 2 * int n + dist from to + 1"
    then obtain item where "item \<in> set (pq s)" "priority item \<le> 2 * int n + dist from to + 1"
      by blast
    then have "item \<in> set (pq s) \<and> priority item \<le> 2 * int (Suc n) + dist from to + 1" by simp
    then show ?thesis by blast
  next
    assume "\<exists>k. costSoFar s a = Some k \<and> k \<le> int n"
    then obtain k where k: "costSoFar s a = Some k" "k \<le> int n" by blast
    have D: "0 \<le> dist from to" by (rule dist_nonneg)
    show ?thesis
    proof (cases "a = to")
      case True
      then have "\<lparr>coord = to, priority = k\<rparr> \<in> set (pq s)" using B(4) k(1) by simp
      moreover have "priority \<lparr>coord = to, priority = k\<rparr> \<le> 2 * int (Suc n) + dist from to + 1"
        using k(2) D by simp
      ultimately show ?thesis by blast
    next
      case False
      from closure_invD [OF cl k(1) False]
      consider (queued) "\<exists>item \<in> set (pq s). coord item = a \<and> priority item \<le> k + heuristic a to"
        | (expanded) "\<forall>d \<in> set directions.
           isFree (fst a + fst d, snd a + snd d) \<or> (fst a + fst d, snd a + snd d) = to \<longrightarrow>
           (\<exists>k'. costSoFar s (fst a + fst d, snd a + snd d) = Some k' \<and> k' \<le> k + 1)"
        by auto
      then show ?thesis
      proof cases
        case queued
        then obtain item where item: "item \<in> set (pq s)" "priority item \<le> k + heuristic a to"
          by blast
        have "dist a to \<le> dist a from + dist from to" by (rule dist_triangle)
        moreover have "dist from a \<le> int n" using walk_step.hyps(1) by (rule walk_dist)
        ultimately have "heuristic a to \<le> int n + dist from to + 1"
          using heuristic_bounds [of a to] dist_sym [of a "from"] by simp
        then have "priority item \<le> 2 * int (Suc n) + dist from to + 1"
          using item(2) k(2) by simp
        then show ?thesis using item(1) by blast
      next
        case expanded
        obtain d where d: "d \<in> set directions" "b' = (fst a + fst d, snd a + snd d)"
          using adjacent_direction [OF walk_step.hyps(2)] by blast
        then obtain k' where "costSoFar s b' = Some k'" "k' \<le> k + 1"
          using expanded walk_step.hyps(3) by blast
        then have "costSoFar s b' = Some k' \<and> k' \<le> int (Suc n)" using k(2) by simp
        then show ?thesis by blast
      qed
    qed
  qed
qed

lemma frontier_goal:
  assumes t: "tree_inv isFree from to s" and b: "bounds_inv from to s"
    and cl: "closure_inv isFree {} to s" and w: "walk isFree to from n to"
  shows "\<exists>item \<in> set (pq s). priority item \<le> 2 * int n + dist from to + 1"
proof -
  from frontier_walk [OF t b cl w] show ?thesis
  proof
    assume "\<exists>k. costSoFar s to = Some k \<and> k \<le> int n"
    then obtain k where k: "costSoFar s to = Some k" "k \<le> int n" by blast
    then have "\<lparr>coord = to, priority = k\<rparr> \<in> set (pq s)" using bounds_invD(4) [OF b] by simp
    moreover have "priority \<lparr>coord = to, priority = k\<rparr> \<le> 2 * int n + dist from to + 1"
      using k(2) dist_nonneg [of "from" to] by simp
    ultimately show ?thesis by blast
  qed
qed

definition reach_inv ::
  "(GridCoord \<Rightarrow> bool) \<Rightarrow> GridCoord \<Rightarrow> GridCoord \<Rightarrow> nat \<Rightarrow> search_state \<Rightarrow> bool" where
  "reach_inv isFree from to n s =
     (tree_inv isFree from to s \<and> bounds_inv from to s \<and> closure_inv isFree {} to s \<and>
      fin_inv {c. dist from c \<le> 2 * int n + dist from to + 2} s)"

lemma ball_finite: "finite {c. dist a c \<le> n}"
proof -
  have "{c. dist a c \<le> n} \<subseteq> {fst a - n .. fst a + n} \<times> {snd a - n .. snd a + n}"
    by (auto simp add: dist_def)
  then show ?thesis by (rule finite_subset) simp
qed

lemma reach_inv_neighbour:
  assumes inv: "reach_inv isFree from to n s" and w: "walk isFree to from n to"
    and pq: "pq s = item # rest" and d: "d \<in> set directions"
  shows "(fst (coord item) + fst d, snd (coord item) + snd d)
           \<in> {c. dist from c \<le> 2 * int n + dist from to + 2}"
proof -
  have t: "tree_inv isFree from to s" and b: "bounds_inv from to s"
    and cl: "closure_inv isFree {} to s"
    using inv unfolding reach_inv_def by simp_all
  obtain item' where i: "item' \<in> set (pq s)" "priority item' \<le> 2 * int n + dist from to + 1"
    using frontier_goal [OF t b cl w] by blast
  have "sorted (map priority (item # rest))" using bounds_invD(3) [OF b] pq by simp
  then have "priority item \<le> priority item'" using i(1) pq by auto
  then have hp: "priority item \<le> 2 * int n + dist from to + 1" using i(2) by simp
  obtain k where k: "costSoFar s (coord item) = Some k"
      "k + heuristic (coord item) to \<le> priority item \<or> coord item = from"
    using bounds_invD(2) [OF b, of item] pq by auto
  have h: "0 \<le> heuristic (coord item) to"
    using heuristic_bounds [of "coord item" to] dist_nonneg [of "coord item" to] by simp
  have "k \<le> 2 * int n + dist from to + 1"
    using k hp h tree_invD(2) [OF t] dist_nonneg [of "from" to] by auto
  moreover have "dist from (coord item) \<le> k" using bounds_invD(1) [OF b k(1)] .
  ultimately show ?thesis using dist_step [OF d, of "from" "coord item"] by simp
qed

lemma reach_inv_step:
  assumes inv: "reach_inv isFree from to n s" and w: "walk isFree to from n to"
    and pq: "pq s = item # rest" and ne: "coord item \<noteq> to"
    and k: "costSoFar s (coord item) = Some k"
  shows "reach_inv isFree from to n
     (foldl (visit isFree to (coord item) k) (s\<lparr>pq := rest\<rparr>) directions)"
proof -
  have t: "tree_inv isFree from to s" and b: "bounds_inv from to s"
    and cl: "closure_inv isFree {} to s"
    and f: "fin_inv {c. dist from c \<le> 2 * int n + dist from to + 2} s"
    using inv unfolding reach_inv_def by simp_all
  have k': "costSoFar (s\<lparr>pq := rest\<rparr>) (coord item) = Some k" using k by simp
  have t': "tree_inv isFree from to (s\<lparr>pq := rest\<rparr>)"
    using t pq unfolding tree_inv_def by simp
  have f': "fin_inv {c. dist from c \<le> 2 * int n + dist from to + 2} (s\<lparr>pq := rest\<rparr>)"
    using f by (simp add: fin_inv_def)
  have "tree_inv isFree from to
      (foldl (visit isFree to (coord item) k) (s\<lparr>pq := rest\<rparr>) directions)"
    using t' k' by (rule visit_fold_tree_inv) simp
  moreover have "bounds_inv from to
      (foldl (visit isFree to (coord item) k) (s\<lparr>pq := rest\<rparr>) directions)"
    using b pq ne k by (rule bounds_step)
  moreover have "closure_inv isFree {} to
      (foldl (visit isFree to (coord item) k) (s\<lparr>pq := rest\<rparr>) directions)"
    using cl pq k by (rule closure_step)
  moreover have "fin_inv {c. dist from c \<le> 2 * int n + dist from to + 2}
      (foldl (visit isFree to (coord item) k) (s\<lparr>pq := rest\<rparr>) directions) \<and>
    potential {c. dist from c \<le> 2 * int n + dist from to + 2}
      (foldl (visit isFree to (coord item) k) (s\<lparr>pq := rest\<rparr>) directions)
      \<le> potential {c. dist from c \<le> 2 * int n + dist from to + 2} (s\<lparr>pq := rest\<rparr>)"
    using f' k'
  proof (rule visit_fold_potential)
    show "set directions \<subseteq> set directions" by simp
  next
    fix d assume "d \<in> set directions"
    then show "(fst (coord item) + fst d, snd (coord item) + snd d)
        \<in> {c. dist from c \<le> 2 * int n + dist from to + 2}"
      using inv w pq by (intro reach_inv_neighbour)
  qed
  ultimately show ?thesis unfolding reach_inv_def by simp
qed

lemma initial_reach_inv:
  "reach_inv isFree from to n
     \<lparr>pq = pq_push [] \<lparr>coord = from, priority = 0\<rparr>,
      costSoFar = [from \<mapsto> 0], cameFrom = [from \<mapsto> None]\<rparr>"
proof -
  have "from \<in> {c. dist from c \<le> 2 * int n + dist from to + 2}"
    using dist_nonneg [of "from" to] by simp
  then have "fin_inv {c. dist from c \<le> 2 * int n + dist from to + 2}
     \<lparr>pq = pq_push [] \<lparr>coord = from, priority = 0\<rparr>,
      costSoFar = [from \<mapsto> 0], cameFrom = [from \<mapsto> None]\<rparr>"
    using ball_finite by (intro initial_fin_inv)
  then show ?thesis
    unfolding reach_inv_def
    using initial_tree_inv initial_bounds_inv initial_closure_inv by simp
qed

text \<open>A search for a goal that can be reached ends, and ends with a path.\<close>

lemma getPath_reachable:
  assumes "reachable isFree from to to"
  shows "\<exists>path. getPath from to isFree = Some (Inr path)"
proof -
  obtain n where w: "walk isFree to from n to" using assms unfolding reachable_def by blast
  let ?s0 = "\<lparr>pq = pq_push [] \<lparr>coord = from, priority = 0\<rparr>,
      costSoFar = [from \<mapsto> 0], cameFrom = [from \<mapsto> None]\<rparr>"
  have "\<exists>r. search isFree to ?s0 = Some r"
  proof (rule search_total [where I = "reach_inv isFree from to n"
        and B = "{c. dist from c \<le> 2 * int n + dist from to + 2}"])
    show "reach_inv isFree from to n ?s0" by (rule initial_reach_inv)
  next
    fix s assume "reach_inv isFree from to n s"
    then show "tree_inv isFree from to s"
      and "fin_inv {c. dist from c \<le> 2 * int n + dist from to + 2} s"
      unfolding reach_inv_def by simp_all
  next
    fix s item rest k
    assume "reach_inv isFree from to n s" "pq s = item # rest" "coord item \<noteq> to"
      "costSoFar s (coord item) = Some k"
    then show "reach_inv isFree from to n
       (foldl (visit isFree to (coord item) k) (s\<lparr>pq := rest\<rparr>) directions)"
      using w by (intro reach_inv_step)
  next
    fix s item rest d
    assume "reach_inv isFree from to n s" "pq s = item # rest" "d \<in> set directions"
    then show "(fst (coord item) + fst d, snd (coord item) + snd d)
        \<in> {c. dist from c \<le> 2 * int n + dist from to + 2}"
      using w by (intro reach_inv_neighbour)
  qed
  then obtain r where r: "search isFree to ?s0 = Some r" by blast
  have "\<exists>path. r = Inr path"
  proof (rule search_rule [OF r, where I = "reach_inv isFree from to n"])
    show "reach_inv isFree from to n ?s0" by (rule initial_reach_inv)
  next
    fix s item rest k
    assume "reach_inv isFree from to n s" "pq s = item # rest" "coord item \<noteq> to"
      "costSoFar s (coord item) = Some k"
    then show "reach_inv isFree from to n
       (foldl (visit isFree to (coord item) k) (s\<lparr>pq := rest\<rparr>) directions)"
      using w by (intro reach_inv_step)
  next
    fix s item rest
    assume "reach_inv isFree from to n s" "pq s = item # rest"
    then show "costSoFar s (coord item) \<noteq> None"
      using tree_invD(11) [of isFree "from" to s item] unfolding reach_inv_def by auto
  next
    fix s assume inv: "reach_inv isFree from to n s" and e: "pq s = []"
    have "\<exists>item \<in> set (pq s). priority item \<le> 2 * int n + dist from to + 1"
      using inv w unfolding reach_inv_def by (intro frontier_goal) simp_all
    then have False using e by simp
    then show "\<exists>path. Inl NoPathFound = Inr path" ..
  next
    fix path :: "GridCoord list"
    show "\<exists>p. Inr path = Inr p" by simp
  qed
  then show ?thesis using r unfolding getPath_def by auto
qed

text \<open>Every cell that has a cost is reachable.\<close>

lemma cost_reachable:
  assumes inv: "tree_inv isFree from to s"
  shows "costSoFar s c = Some k \<Longrightarrow> reachable isFree from to c"
proof (induction "nat k" arbitrary: c k rule: less_induct)
  case less
  note D = tree_invD [OF inv]
  obtain v where v: "cameFrom s c = Some v" using D(10) [OF less.prems] by auto
  show ?case
  proof (cases v)
    case None
    then have "c = from" using v D(3) by simp
    then show ?thesis by (simp add: reachable_start)
  next
    case (Some p)
    then have cp: "cameFrom s c = Some (Some p)" using v by simp
    obtain k1 kp where kk: "costSoFar s c = Some k1" "costSoFar s p = Some kp" "kp + 1 \<le> k1"
      using D(8) [OF cp] by blast
    have "k1 = k" using kk(1) less.prems by simp
    moreover have "0 \<le> kp" using D(9) [OF kk(2)] .
    ultimately have "nat kp < nat k" using kk(3) by simp
    then have "reachable isFree from to p" using kk(2) by (rule less.hyps)
    then show ?thesis using D(6) [OF cp] D(5) [OF cp] by (rule reachable_step)
  qed
qed

text \<open>
  A search for a goal that cannot be reached ends, with the error \<open>No path found\<close>, when
  only finitely many cells are reachable.
\<close>

lemma getPath_unreachable_finite:
  assumes un: "\<not> reachable isFree from to to"
    and fin: "finite {c. reachable isFree from to c}"
  shows "getPath from to isFree = Some (Inl NoPathFound)"
proof -
  let ?R = "{c. reachable isFree from to c}"
  let ?s0 = "\<lparr>pq = pq_push [] \<lparr>coord = from, priority = 0\<rparr>,
      costSoFar = [from \<mapsto> 0], cameFrom = [from \<mapsto> None]\<rparr>"
  have step: "tree_inv isFree from to
        (foldl (visit isFree to (coord item) k) (s\<lparr>pq := rest\<rparr>) directions) \<and>
      fin_inv ?R (foldl (visit isFree to (coord item) k) (s\<lparr>pq := rest\<rparr>) directions)"
    if I: "tree_inv isFree from to s \<and> fin_inv ?R s" and pq: "pq s = item # rest"
      and k: "costSoFar s (coord item) = Some k" for s item rest k
  proof -
    have t: "tree_inv isFree from to (s\<lparr>pq := rest\<rparr>)"
      using I pq unfolding tree_inv_def by simp
    have f: "fin_inv ?R (s\<lparr>pq := rest\<rparr>)" using I by (simp add: fin_inv_def)
    have k': "costSoFar (s\<lparr>pq := rest\<rparr>) (coord item) = Some k" using k by simp
    have cur: "reachable isFree from to (coord item)"
      using I k cost_reachable by blast
    have "tree_inv isFree from to
        (foldl (visit isFree to (coord item) k) (s\<lparr>pq := rest\<rparr>) directions)"
      using t k' by (rule visit_fold_tree_inv) simp
    moreover have "fin_inv ?R
        (foldl (visit isFree to (coord item) k) (s\<lparr>pq := rest\<rparr>) directions) \<and>
      potential ?R (foldl (visit isFree to (coord item) k) (s\<lparr>pq := rest\<rparr>) directions)
        \<le> potential ?R (s\<lparr>pq := rest\<rparr>)"
      using f k'
    proof (rule visit_fold_potential)
      show "set directions \<subseteq> set directions" by simp
    next
      fix d assume d: "d \<in> set directions"
        and free: "isFree (fst (coord item) + fst d, snd (coord item) + snd d) \<or>
         (fst (coord item) + fst d, snd (coord item) + snd d) = to"
      have "adjacent (coord item) (fst (coord item) + fst d, snd (coord item) + snd d)"
        using d by (rule directions_adjacent)
      with cur have "reachable isFree from to (fst (coord item) + fst d, snd (coord item) + snd d)"
        using free by (rule reachable_step)
      then show "(fst (coord item) + fst d, snd (coord item) + snd d) \<in> ?R" by simp
    qed
    ultimately show ?thesis by simp
  qed
  have init: "tree_inv isFree from to ?s0 \<and> fin_inv ?R ?s0"
    using initial_tree_inv initial_fin_inv [OF fin] reachable_start by simp
  have "\<exists>r. search isFree to ?s0 = Some r"
  proof (rule search_total [where I = "\<lambda>s. tree_inv isFree from to s \<and> fin_inv ?R s"
        and B = ?R])
    show "tree_inv isFree from to ?s0 \<and> fin_inv ?R ?s0" by (rule init)
  next
    fix s assume "tree_inv isFree from to s \<and> fin_inv ?R s"
    then show "tree_inv isFree from to s" and "fin_inv ?R s" by simp_all
  next
    fix s item rest k
    assume "tree_inv isFree from to s \<and> fin_inv ?R s" "pq s = item # rest"
      "costSoFar s (coord item) = Some k"
    then show "tree_inv isFree from to
        (foldl (visit isFree to (coord item) k) (s\<lparr>pq := rest\<rparr>) directions) \<and>
      fin_inv ?R (foldl (visit isFree to (coord item) k) (s\<lparr>pq := rest\<rparr>) directions)"
      by (rule step)
  next
    fix s item rest d
    assume I: "tree_inv isFree from to s \<and> fin_inv ?R s" and pq: "pq s = item # rest"
      and d: "d \<in> set directions"
      and free: "isFree (fst (coord item) + fst d, snd (coord item) + snd d) \<or>
        (fst (coord item) + fst d, snd (coord item) + snd d) = to"
    obtain k where "costSoFar s (coord item) = Some k"
      using I pq tree_invD(11) [of isFree "from" to s item] by auto
    then have cur: "reachable isFree from to (coord item)" using I cost_reachable by blast
    have "adjacent (coord item) (fst (coord item) + fst d, snd (coord item) + snd d)"
      using d by (rule directions_adjacent)
    with cur have "reachable isFree from to (fst (coord item) + fst d, snd (coord item) + snd d)"
      using free by (rule reachable_step)
    then show "(fst (coord item) + fst d, snd (coord item) + snd d) \<in> ?R" by simp
  qed
  then obtain r where r: "search isFree to ?s0 = Some r" by blast
  have "r = Inl NoPathFound"
  proof (rule search_rule [OF r, where I = "\<lambda>s. tree_inv isFree from to s \<and> fin_inv ?R s"])
    show "tree_inv isFree from to ?s0 \<and> fin_inv ?R ?s0" by (rule init)
  next
    fix s item rest k
    assume "tree_inv isFree from to s \<and> fin_inv ?R s" "pq s = item # rest"
      "costSoFar s (coord item) = Some k"
    then show "tree_inv isFree from to
        (foldl (visit isFree to (coord item) k) (s\<lparr>pq := rest\<rparr>) directions) \<and>
      fin_inv ?R (foldl (visit isFree to (coord item) k) (s\<lparr>pq := rest\<rparr>) directions)"
      by (rule step)
  next
    fix s item rest
    assume "tree_inv isFree from to s \<and> fin_inv ?R s" "pq s = item # rest"
    then show "costSoFar s (coord item) \<noteq> None"
      using tree_invD(11) [of isFree "from" to s item] by auto
  next
    show "Inl NoPathFound = Inl NoPathFound" by simp
  next
    fix s item rest path
    assume I: "tree_inv isFree from to s \<and> fin_inv ?R s" and pq: "pq s = item # rest"
      and goal: "coord item = to"
    obtain k where "costSoFar s to = Some k"
      using I pq goal tree_invD(11) [of isFree "from" to s item] by auto
    then have "reachable isFree from to to" using I cost_reachable by blast
    then show "Inr path = Inl NoPathFound" using un by simp
  qed
  then show ?thesis using r unfolding getPath_def by simp
qed

text \<open>
  A search for a goal that cannot be reached never ends when infinitely many cells are
  reachable: an empty queue would mean that every reachable cell has a cost, and only
  finitely many cells ever have one.
\<close>

definition exhaust_inv :: "(GridCoord \<Rightarrow> bool) \<Rightarrow> GridCoord \<Rightarrow> GridCoord \<Rightarrow> search_state \<Rightarrow> bool" where
  "exhaust_inv isFree from to s =
     (tree_inv isFree from to s \<and> closure_inv isFree {} to s \<and> finite (dom (costSoFar s)))"

lemma visit_finite_dom:
  "finite (dom (costSoFar s)) \<Longrightarrow> finite (dom (costSoFar (visit isFree to current k s d)))"
  by (cases rule: visit_cases [of isFree to current k s d]) simp_all

lemma visit_fold_finite_dom:
  "finite (dom (costSoFar s)) \<Longrightarrow> finite (dom (costSoFar (foldl (visit isFree to current k) s dirs)))"
  by (induction dirs arbitrary: s) (simp_all add: visit_finite_dom)

lemma exhaust_inv_step:
  assumes inv: "exhaust_inv isFree from to s" and pq: "pq s = item # rest"
    and k: "costSoFar s (coord item) = Some k"
  shows "exhaust_inv isFree from to
     (foldl (visit isFree to (coord item) k) (s\<lparr>pq := rest\<rparr>) directions)"
proof -
  have t: "tree_inv isFree from to (s\<lparr>pq := rest\<rparr>)"
    using inv pq unfolding exhaust_inv_def tree_inv_def by simp
  have k': "costSoFar (s\<lparr>pq := rest\<rparr>) (coord item) = Some k" using k by simp
  have "tree_inv isFree from to
      (foldl (visit isFree to (coord item) k) (s\<lparr>pq := rest\<rparr>) directions)"
    using t k' by (rule visit_fold_tree_inv) simp
  moreover have "closure_inv isFree {} to
      (foldl (visit isFree to (coord item) k) (s\<lparr>pq := rest\<rparr>) directions)"
    using inv pq k unfolding exhaust_inv_def by (intro closure_step) simp_all
  moreover have "finite (dom (costSoFar
      (foldl (visit isFree to (coord item) k) (s\<lparr>pq := rest\<rparr>) directions)))"
    using inv unfolding exhaust_inv_def by (intro visit_fold_finite_dom) simp
  ultimately show ?thesis unfolding exhaust_inv_def by simp
qed

lemma exhausted_costs:
  assumes inv: "exhaust_inv isFree from to s" and e: "pq s = []"
    and un: "\<not> reachable isFree from to to"
  shows "reachable isFree from to c \<Longrightarrow> costSoFar s c \<noteq> None"
proof (induction rule: reachable_induct [where P = "\<lambda>c. reachable isFree from to c \<and> costSoFar s c \<noteq> None", THEN conjunct2, consumes 1, case_names start step])
  case start
  then show ?case
    using inv tree_invD(2) [of isFree "from" to s] unfolding exhaust_inv_def
    by (simp add: reachable_start)
next
  case (step a b)
  have ra: "reachable isFree from to a" using step by simp
  then have ne: "a \<noteq> to" using un by auto
  obtain k where k: "costSoFar s a = Some k" using step by auto
  have cl: "closure_inv isFree {} to s" using inv unfolding exhaust_inv_def by simp
  obtain d where d: "d \<in> set directions" "b = (fst a + fst d, snd a + snd d)"
    using adjacent_direction step by blast
  from closure_invD [OF cl k ne] e
  have "\<forall>d \<in> set directions.
      isFree (fst a + fst d, snd a + snd d) \<or> (fst a + fst d, snd a + snd d) = to \<longrightarrow>
      (\<exists>k'. costSoFar s (fst a + fst d, snd a + snd d) = Some k' \<and> k' \<le> k + 1)"
    by simp
  then have "costSoFar s b \<noteq> None" using d step by auto
  moreover have "reachable isFree from to b" using ra step by (blast intro: reachable_step)
  ultimately show ?case by simp
qed

lemma getPath_unreachable_infinite:
  assumes un: "\<not> reachable isFree from to to"
    and inf: "infinite {c. reachable isFree from to c}"
  shows "getPath from to isFree = None"
proof (cases "getPath from to isFree")
  case None
  then show ?thesis .
next
  case (Some r)
  have False
  proof (rule search_rule [OF Some [unfolded getPath_def],
        where I = "exhaust_inv isFree from to" and Q = "\<lambda>_. False"])
    show "exhaust_inv isFree from to \<lparr>pq = pq_push [] \<lparr>coord = from, priority = 0\<rparr>,
        costSoFar = [from \<mapsto> 0], cameFrom = [from \<mapsto> None]\<rparr>"
      unfolding exhaust_inv_def using initial_tree_inv initial_closure_inv by simp
  next
    fix s item rest k
    assume "exhaust_inv isFree from to s" "pq s = item # rest"
      "costSoFar s (coord item) = Some k"
    then show "exhaust_inv isFree from to
       (foldl (visit isFree to (coord item) k) (s\<lparr>pq := rest\<rparr>) directions)"
      by (rule exhaust_inv_step)
  next
    fix s item rest
    assume "exhaust_inv isFree from to s" "pq s = item # rest"
    then show "costSoFar s (coord item) \<noteq> None"
      using tree_invD(11) [of isFree "from" to s item] unfolding exhaust_inv_def by auto
  next
    fix s assume inv: "exhaust_inv isFree from to s" and e: "pq s = []"
    have "{c. reachable isFree from to c} \<subseteq> dom (costSoFar s)"
      using exhausted_costs [OF inv e un] by auto
    moreover have "finite (dom (costSoFar s))" using inv unfolding exhaust_inv_def by simp
    ultimately have "finite {c. reachable isFree from to c}" by (rule finite_subset)
    then show False using inf by simp
  next
    fix s item rest path
    assume inv: "exhaust_inv isFree from to s" and pq: "pq s = item # rest"
      and goal: "coord item = to"
    obtain k where "costSoFar s to = Some k"
      using inv pq goal tree_invD(11) [of isFree "from" to s item]
      unfolding exhaust_inv_def by auto
    then have "reachable isFree from to to"
      using inv cost_reachable unfolding exhaust_inv_def by blast
    then show False using un by simp
  qed
  then show ?thesis ..
qed

text \<open>
  Claim C2 (amended). Whenever \<open>getPath\<close> ends, it has either returned a path that
  starts at the start, ends at the goal and whose other cells are all free (the goal need
  not be), or failed with \<open>No path found\<close>; it never returns a path that stops short of
  the goal. Whether it ends is decided by the cells that can be reached from the start by
  grid steps onto cells that are free or the goal: if the goal is one of them, \<open>getPath\<close>
  ends and returns a path; if it is not and finitely many cells can be reached, \<open>getPath\<close>
  ends with \<open>No path found\<close>; if it is not and infinitely many cells can be reached,
  \<open>getPath\<close> never ends.
\<close>

theorem getPath_result:
  "(getPath from to isFree = Some r \<longrightarrow>
     (case r of
        Inl e \<Rightarrow> e = NoPathFound
      | Inr path \<Rightarrow> path \<noteq> [] \<and> hd path = from \<and> last path = to \<and>
          (\<forall>c \<in> set path. c \<noteq> from \<longrightarrow> c \<noteq> to \<longrightarrow> isFree c))) \<and>
   (reachable isFree from to to \<longrightarrow> (\<exists>path. getPath from to isFree = Some (Inr path))) \<and>
   (\<not> reachable isFree from to to \<and> finite {c. reachable isFree from to c} \<longrightarrow>
      getPath from to isFree = Some (Inl NoPathFound)) \<and>
   (\<not> reachable isFree from to to \<and> infinite {c. reachable isFree from to c} \<longrightarrow>
      getPath from to isFree = None)"
proof (intro conjI impI)
  assume "getPath from to isFree = Some r"
  from getPath_sound [OF this]
  show "case r of
        Inl e \<Rightarrow> e = NoPathFound
      | Inr path \<Rightarrow> path \<noteq> [] \<and> hd path = from \<and> last path = to \<and>
          (\<forall>c \<in> set path. c \<noteq> from \<longrightarrow> c \<noteq> to \<longrightarrow> isFree c)"
    by (auto split: sum.splits)
next
  assume "reachable isFree from to to"
  then show "\<exists>path. getPath from to isFree = Some (Inr path)" by (rule getPath_reachable)
next
  assume "\<not> reachable isFree from to to \<and> finite {c. reachable isFree from to c}"
  then show "getPath from to isFree = Some (Inl NoPathFound)"
    using getPath_unreachable_finite by blast
next
  assume "\<not> reachable isFree from to to \<and> infinite {c. reachable isFree from to c}"
  then show "getPath from to isFree = None"
    using getPath_unreachable_infinite by blast
qed

text \<open>
  Four free cells, for the witness below: the goal \<open>(2, 2)\<close> is next to the last of
  them, the goal \<open>(3, 3)\<close> is next to none. The third input of the witness is the
  corridor, where the goal is next to no free cell and every cell of the corridor can be
  reached.
\<close>

definition wall :: "GridCoord \<Rightarrow> bool" where
  "wall c = (c \<in> set [(0, 0), (1, 0), (1, 1), (2, 1)])"

lemma wall_reachable_near: "reachable wall (0, 0) (2, 2) (2, 2)"
proof -
  have "reachable wall (0, 0) (2, 2) (0, 0)" by (rule reachable_start)
  then have "reachable wall (0, 0) (2, 2) (1, 0)"
    by (rule reachable_step) (simp_all add: adjacent_def wall_def)
  then have "reachable wall (0, 0) (2, 2) (1, 1)"
    by (rule reachable_step) (simp_all add: adjacent_def wall_def)
  then have "reachable wall (0, 0) (2, 2) (2, 1)"
    by (rule reachable_step) (simp_all add: adjacent_def wall_def)
  then show ?thesis
    by (rule reachable_step) (simp_all add: adjacent_def wall_def)
qed

lemma wall_reachable_far: "reachable wall (0, 0) (3, 3) c \<Longrightarrow> wall c"
proof (induction rule: reachable_induct [consumes 1, case_names start step])
  case start
  show ?case by (simp add: wall_def)
next
  case (step a b)
  have "\<not> adjacent a (3, 3)" using step(1) by (auto simp add: wall_def adjacent_def)
  then show ?case using step(2,3) by auto
qed

lemma corridor_reachable: "reachable corridor (0, 0) (0, 5) c = corridor c"
proof
  assume "reachable corridor (0, 0) (0, 5) c"
  then show "corridor c"
  proof (induction rule: reachable_induct [consumes 1, case_names start step])
    case start
    show ?case by (simp add: corridor_def)
  next
    case (step a b)
    have "\<not> adjacent a (0, 5)" using step(1) by (auto simp add: corridor_def adjacent_def)
    then show ?case using step(2,3) by auto
  qed
next
  assume c: "corridor c"
  have "reachable corridor (0, 0) (0, 5) (int n, 0)" for n
  proof (induction n)
    case 0
    show ?case using reachable_start [of corridor "(0, 0)" "(0, 5)"] by simp
  next
    case (Suc n)
    then show ?case
      by (rule reachable_step) (simp_all add: adjacent_def corridor_def)
  qed
  from this [of "nat (fst c)"] show "reachable corridor (0, 0) (0, 5) c"
    using c by (cases c) (simp add: corridor_def)
qed

lemma corridor_infinite: "infinite {c. corridor c}"
proof
  assume "finite {c. corridor c}"
  moreover have "range (\<lambda>n :: nat. (int n, 0 :: int)) \<subseteq> {c. corridor c}"
    by (auto simp add: corridor_def)
  ultimately have "finite (range (\<lambda>n :: nat. (int n, 0 :: int)))" by (rule rev_finite_subset)
  moreover have "inj (\<lambda>n :: nat. (int n, 0 :: int))" by (simp add: inj_on_def)
  ultimately have "finite (UNIV :: nat set)" by (rule finite_imageD)
  then show False by simp
qed

theorem getPath_result_witness:
  "reachable wall (0, 0) (2, 2) (2, 2) \<and>
   getPath (0, 0) (2, 2) wall = Some (Inr [(0, 0), (1, 0), (1, 1), (2, 1), (2, 2)]) \<and>
   \<not> reachable wall (0, 0) (3, 3) (3, 3) \<and> finite {c. reachable wall (0, 0) (3, 3) c} \<and>
   getPath (0, 0) (3, 3) wall = Some (Inl NoPathFound) \<and>
   \<not> reachable corridor (0, 0) (0, 5) (0, 5) \<and>
   infinite {c. reachable corridor (0, 0) (0, 5) c} \<and>
   getPath (0, 0) (0, 5) corridor = None"
proof -
  have a: "getPath (0, 0) (2, 2) wall = Some (Inr [(0, 0), (1, 0), (1, 1), (2, 1), (2, 2)])"
    by code_simp
  have near: "reachable wall (0, 0) (2, 2) (2, 2)" by (rule wall_reachable_near)
  have far: "\<not> reachable wall (0, 0) (3, 3) (3, 3)"
    using wall_reachable_far [of "(3, 3)"] by (auto simp add: wall_def)
  have "{c. reachable wall (0, 0) (3, 3) c} \<subseteq> set [(0, 0), (1, 0), (1, 1), (2, 1)]"
    using wall_reachable_far by (auto simp add: wall_def)
  then have fin: "finite {c. reachable wall (0, 0) (3, 3) c}"
    by (rule finite_subset) simp
  have un: "\<not> reachable corridor (0, 0) (0, 5) (0, 5)"
    by (simp add: corridor_reachable corridor_def)
  have inf: "infinite {c. reachable corridor (0, 0) (0, 5) c}"
    using corridor_infinite by (simp add: corridor_reachable)
  show ?thesis
    using getPath_result [of "(0, 0)" "(2, 2)" wall "Inr [(0, 0), (1, 0), (1, 1), (2, 1), (2, 2)]"]
      getPath_result [of "(0, 0)" "(3, 3)" wall "Inl NoPathFound"]
      getPath_result [of "(0, 0)" "(0, 5)" corridor "Inl NoPathFound"]
      a near far fin un inf
    by simp
qed

section \<open>Nodes, edges and the graph (types/graph.ts)\<close>

text \<open>
  The module variable \<open>graphDirection\<close> is a parameter of every function that reads it.
\<close>

datatype GraphDirection = LR | TD

text \<open>
  A node name and an edge label are strings: lists of characters. Nodes are objects
  shared by reference between \<open>Graph.nodes\<close>, the edges and the occupancy map; the model
  keeps them in the list \<open>nodes\<close> and writes a reference to a node as its position in
  that list. The field \<open>index\<close> is the number the source stores in the node.
\<close>

record Node =
  name :: "glyph list"
  index :: nat
  gridCoord :: "GridCoord option"

record Edge =
  edge_from :: nat
  edge_to :: nat
  edge_text :: "glyph list"
  path :: "GridCoord list"
  labelLine :: "GridCoord list"
  startDir :: "Direction option"
  endDir :: "Direction option"

text \<open>
  The three maps of the graph are association lists in insertion order, read with
  \<open>map_of\<close> and written with \<open>AList.update\<close>, which replaces the value of a key that
  is present and appends a new key, as \<open>Map.set\<close> does. The occupancy map \<open>grid\<close> is
  keyed by the string \<open>"x,y"\<close> in the source and by the pair here.

  The field \<open>writes\<close> is not in the source: it records every \<open>set\<close> on
  \<open>columnWidth\<close> and \<open>rowHeight\<close> (which map, the key, the value found there before,
  the value written), so that a property of every write can be stated. Nothing reads it.
\<close>

datatype axis = Column | Row

type_synonym size_write = "axis \<times> int \<times> int option \<times> int"

record Graph =
  nodes :: "Node list"
  edges :: "Edge list"
  grid :: "(GridCoord \<times> nat) list"
  columnWidth :: "(int \<times> int) list"
  rowHeight :: "(int \<times> int) list"
  writes :: "size_write list"

definition BOX_BORDER_PADDING :: int where "BOX_BORDER_PADDING = 1"
definition PADDING_BETWEEN_X :: int where "PADDING_BETWEEN_X = 5"
definition PADDING_BETWEEN_Y :: int where "PADDING_BETWEEN_Y = 5"

definition getOpposite :: "Direction \<Rightarrow> error + Direction" where
  "getOpposite d =
     (if d = Up then Inr Down
      else if d = Down then Inr Up
      else if d = Left then Inr Right
      else if d = Right then Inr Left
      else if d = UpperRight then Inr LowerLeft
      else if d = UpperLeft then Inr LowerRight
      else if d = LowerRight then Inr UpperLeft
      else if d = LowerLeft then Inr UpperRight
      else if d = Middle then Inr Middle
      else Inl UnknownDirection)"

definition selfReferenceDirection ::
  "GraphDirection \<Rightarrow> Direction \<times> Direction \<times> Direction \<times> Direction" where
  "selfReferenceDirection graphDirection =
     (if graphDirection = LR then (Right, Down, Down, Right) else (Down, Right, Right, Down))"

section \<open>Layout: placement (GraphImpl.createMapping)\<close>

text \<open>
  \<open>getChildren\<close>: the targets of the edges whose source has the name of \<open>n\<close>, in edge
  order, as references.
\<close>

definition getChildren :: "Graph \<Rightarrow> Node \<Rightarrow> nat list" where
  "getChildren g n =
     map edge_to (filter (\<lambda>e. name (nodes g ! edge_from e) = name n) (edges g))"

text \<open>The nine cells \<open>reserveSpotInGrid\<close> reserves, in the order of its two loops.\<close>

definition reserved_cells :: "GridCoord \<Rightarrow> GridCoord list" where
  "reserved_cells c = [(fst c + x, snd c + y). x \<leftarrow> [0, 1, 2], y \<leftarrow> [0, 1, 2]]"

text \<open>
  \<open>reserveSpotInGrid(n, requestedCoord)\<close>, with \<open>n = this.nodes[i]\<close>. An occupied anchor
  cell moves the request four cells along the cross axis and tries again. Otherwise the
  nine cells are given to \<open>n\<close> and \<open>n.gridCoord\<close> is set; when \<open>this.nodes[i]\<close> does not
  exist, that assignment is a TypeError.
\<close>

function reserveSpotInGrid ::
  "GraphDirection \<Rightarrow> Graph \<Rightarrow> nat \<Rightarrow> GridCoord \<Rightarrow> error + Graph \<times> GridCoord" where
  "reserveSpotInGrid graphDirection g i requestedCoord =
     (if map_of (grid g) requestedCoord \<noteq> None then
        (if graphDirection = LR
         then reserveSpotInGrid graphDirection g i (fst requestedCoord, snd requestedCoord + 4)
         else reserveSpotInGrid graphDirection g i (fst requestedCoord + 4, snd requestedCoord))
      else if i < length (nodes g)
      then Inr (g\<lparr>grid := foldl (\<lambda>gr k. AList.update k i gr) (grid g)
                                (reserved_cells requestedCoord),
                    nodes := (nodes g)[i := (nodes g ! i)\<lparr>gridCoord := Some requestedCoord\<rparr>]\<rparr>,
                requestedCoord)
      else Inl TypeError)"
  by pat_completeness auto

lemma filter_length_less:
  assumes "x \<in> set xs" "P x" "\<not> Q x" "\<And>y. Q y \<Longrightarrow> P y"
  shows "length (filter Q xs) < length (filter P xs)"
proof -
  have eq: "filter Q xs = filter Q (filter P xs)" using assms(4) by (auto intro: filter_cong)
  have mem: "x \<in> set (filter P xs)" using assms(1,2) by simp
  have "length (filter Q (filter P xs)) < length (filter P xs)"
    using mem assms(3) by (rule length_filter_less)
  then show ?thesis by (simp only: eq)
qed

termination reserveSpotInGrid
proof (relation "measure (\<lambda>(d, g, i, c).
    length (filter (\<lambda>k. if d = LR then fst k = fst c \<and> snd c \<le> snd k
                          else snd k = snd c \<and> fst c \<le> fst k) (map fst (grid g))))")
  show "wf (measure (\<lambda>(d, g, i, c).
    length (filter (\<lambda>k. if d = LR then fst k = fst c \<and> snd c \<le> snd k
                          else snd k = snd c \<and> fst c \<le> fst k) (map fst (grid g)))))"
    by simp
next
  fix graphDirection :: GraphDirection and g :: Graph and i :: nat and requestedCoord :: GridCoord
  assume occ: "map_of (grid g) requestedCoord \<noteq> None" and lr: "graphDirection = LR"
  have mem: "requestedCoord \<in> set (map fst (grid g))"
    using occ by (auto simp add: map_of_eq_None_iff)
  have "length (filter (\<lambda>k. fst k = fst requestedCoord \<and> snd requestedCoord + 4 \<le> snd k)
          (map fst (grid g)))
      < length (filter (\<lambda>k. fst k = fst requestedCoord \<and> snd requestedCoord \<le> snd k)
          (map fst (grid g)))"
    by (rule filter_length_less [OF mem]) auto
  then show "((graphDirection, g, i, fst requestedCoord, snd requestedCoord + 4),
        graphDirection, g, i, requestedCoord)
       \<in> measure (\<lambda>(d, g, i, c).
    length (filter (\<lambda>k. if d = LR then fst k = fst c \<and> snd c \<le> snd k
                          else snd k = snd c \<and> fst c \<le> fst k) (map fst (grid g))))"
    using lr by simp
next
  fix graphDirection :: GraphDirection and g :: Graph and i :: nat and requestedCoord :: GridCoord
  assume occ: "map_of (grid g) requestedCoord \<noteq> None" and lr: "graphDirection \<noteq> LR"
  have mem: "requestedCoord \<in> set (map fst (grid g))"
    using occ by (auto simp add: map_of_eq_None_iff)
  have "length (filter (\<lambda>k. snd k = snd requestedCoord \<and> fst requestedCoord + 4 \<le> fst k)
          (map fst (grid g)))
      < length (filter (\<lambda>k. snd k = snd requestedCoord \<and> fst requestedCoord \<le> fst k)
          (map fst (grid g)))"
    by (rule filter_length_less [OF mem]) auto
  then show "((graphDirection, g, i, fst requestedCoord + 4, snd requestedCoord),
        graphDirection, g, i, requestedCoord)
       \<in> measure (\<lambda>(d, g, i, c).
    length (filter (\<lambda>k. if d = LR then fst k = fst c \<and> snd c \<le> snd k
                          else snd k = snd c \<and> fst c \<le> fst k) (map fst (grid g))))"
    using lr by simp
qed

declare reserveSpotInGrid.simps [simp del]

text \<open>
  The first loop of \<open>createMapping\<close>: a node is a root when its name was not yet found,
  as a node or as a child of an earlier node, at the time the loop reaches it. The state
  of the loop is the list of roots (references) and the set \<open>nodesFound\<close>.
\<close>

definition find_roots_step :: "Graph \<Rightarrow> nat list \<times> glyph list set \<Rightarrow> nat \<Rightarrow> nat list \<times> glyph list set" where
  "find_roots_step g st p =
     (let n = nodes g ! p;
          rootNodes = (if name n \<in> snd st then fst st else fst st @ [p]);
          nodesFound = insert (name n) (snd st)
      in (rootNodes, foldl (\<lambda>found child. insert (name (nodes g ! child)) found) nodesFound
                       (getChildren g n)))"

definition find_roots :: "Graph \<Rightarrow> nat list" where
  "find_roots g = fst (foldl (find_roots_step g) ([], {}) [0..<length (nodes g)])"

text \<open>
  The array \<open>highestPositionPerLevel\<close> is \<open>new Array(100).fill(0)\<close>. Reading it at an
  index it does not have gives \<open>undefined\<close> in the source: \<open>None\<close> here.
\<close>

definition read_level :: "int list \<Rightarrow> int \<Rightarrow> int option" where
  "read_level highestPositionPerLevel level =
     (if 0 \<le> level \<and> nat level < length highestPositionPerLevel
      then Some (highestPositionPerLevel ! nat level) else None)"

text \<open>
  The second loop: every root is given the next free place of level 0. The assignment
  \<open>this.nodes[n.index].gridCoord = mappingCoord\<close> repeats what \<open>reserveSpotInGrid\<close> has
  just stored in the same node.
\<close>

fun place_roots ::
  "GraphDirection \<Rightarrow> nat list \<Rightarrow> Graph \<times> int list \<Rightarrow> error + Graph \<times> int list" where
  "place_roots graphDirection [] st = Inr st"
| "place_roots graphDirection (r # rs) (g, highestPositionPerLevel) =
     (case read_level highestPositionPerLevel 0 of
        None \<Rightarrow> Inl NotANumber
      | Some h \<Rightarrow>
          (case reserveSpotInGrid graphDirection g (index (nodes g ! r))
                  (if graphDirection = LR then (0, h) else (h, 0)) of
             Inl err \<Rightarrow> Inl err
           | Inr (g', mappingCoord) \<Rightarrow>
               place_roots graphDirection rs (g', highestPositionPerLevel[0 := h + 4])))"

text \<open>
  The inner loop of the third loop, over the children of one placed node.
  \<open>highestPosition\<close> was read once before the loop, and is \<open>None\<close> when the level is
  beyond the array: the source then goes on with a coordinate that is not a number, and
  the model stops with \<open>NotANumber\<close>.
\<close>

fun place_children ::
  "GraphDirection \<Rightarrow> int \<Rightarrow> int option \<Rightarrow> nat list \<Rightarrow> Graph \<times> int list
     \<Rightarrow> error + Graph \<times> int list" where
  "place_children graphDirection childLevel highestPosition [] st = Inr st"
| "place_children graphDirection childLevel highestPosition (child # rest)
       (g, highestPositionPerLevel) =
     (if gridCoord (nodes g ! child) \<noteq> None
      then place_children graphDirection childLevel highestPosition rest
             (g, highestPositionPerLevel)
      else case highestPosition of
             None \<Rightarrow> Inl NotANumber
           | Some h \<Rightarrow>
               (case reserveSpotInGrid graphDirection g (index (nodes g ! child))
                       (if graphDirection = LR then (childLevel, h) else (h, childLevel)) of
                  Inl err \<Rightarrow> Inl err
                | Inr (g', mappingCoord) \<Rightarrow>
                    place_children graphDirection childLevel highestPosition rest
                      (g', highestPositionPerLevel[nat childLevel := h + 4])))"

text \<open>The third loop, over all nodes in order; a node without a position is skipped.\<close>

fun place_levels ::
  "GraphDirection \<Rightarrow> nat list \<Rightarrow> Graph \<times> int list \<Rightarrow> error + Graph \<times> int list" where
  "place_levels graphDirection [] st = Inr st"
| "place_levels graphDirection (p # ps) (g, highestPositionPerLevel) =
     (case gridCoord (nodes g ! p) of
        None \<Rightarrow> place_levels graphDirection ps (g, highestPositionPerLevel)
      | Some c \<Rightarrow>
          let childLevel = (if graphDirection = LR then fst c + 4 else snd c + 4);
              highestPosition = read_level highestPositionPerLevel childLevel
          in case place_children graphDirection childLevel highestPosition
                    (getChildren g (nodes g ! p)) (g, highestPositionPerLevel) of
               Inl err \<Rightarrow> Inl err
             | Inr st \<Rightarrow> place_levels graphDirection ps st)"

definition placement :: "GraphDirection \<Rightarrow> Graph \<Rightarrow> error + Graph" where
  "placement graphDirection g =
     (case place_roots graphDirection (find_roots g) (g, replicate 100 0) of
        Inl err \<Rightarrow> Inl err
      | Inr st \<Rightarrow>
          (case place_levels graphDirection [0..<length (nodes g)] st of
             Inl err \<Rightarrow> Inl err
           | Inr (g', highestPositionPerLevel) \<Rightarrow> Inr g'))"

section \<open>Placement keeps the blocks of the nodes apart\<close>

text \<open>
  A graph as the parser hands it to \<open>createMapping\<close>: the field \<open>index\<close> of a node is its
  position in \<open>nodes\<close>, and the ends of every edge are nodes of the graph.
\<close>

definition wf_graph :: "Graph \<Rightarrow> bool" where
  "wf_graph g =
     ((\<forall>p < length (nodes g). index (nodes g ! p) = p) \<and>
      (\<forall>e \<in> set (edges g). edge_from e < length (nodes g) \<and> edge_to e < length (nodes g)))"

text \<open>No node has a grid position yet.\<close>

definition unplaced :: "Graph \<Rightarrow> bool" where
  "unplaced g = (\<forall>p < length (nodes g). gridCoord (nodes g ! p) = None)"

text \<open>
  The invariant of placement: the anchor of every placed node has coordinates that are
  multiples of four, and the occupancy map gives the nine cells of its block to that node.
\<close>

definition placed_inv :: "Graph \<Rightarrow> bool" where
  "placed_inv g =
     (\<forall>p < length (nodes g). \<forall>c. gridCoord (nodes g ! p) = Some c \<longrightarrow>
        fst c mod 4 = 0 \<and> snd c mod 4 = 0 \<and>
        (\<forall>k \<in> set (reserved_cells c). map_of (grid g) k = Some p))"

text \<open>
  What placement leaves alone: the edges, the size maps and their record, the names and
  indices of the nodes, and every position that is already assigned.
\<close>

definition frame :: "Graph \<Rightarrow> Graph \<Rightarrow> bool" where
  "frame g g' =
     (length (nodes g') = length (nodes g) \<and> edges g' = edges g \<and>
      columnWidth g' = columnWidth g \<and> rowHeight g' = rowHeight g \<and> writes g' = writes g \<and>
      (\<forall>p < length (nodes g). name (nodes g' ! p) = name (nodes g ! p) \<and>
         index (nodes g' ! p) = index (nodes g ! p) \<and>
         (gridCoord (nodes g ! p) \<noteq> None \<longrightarrow> gridCoord (nodes g' ! p) = gridCoord (nodes g ! p))))"

text \<open>Every entry of \<open>highestPositionPerLevel\<close> is a multiple of four.\<close>

definition levels_inv :: "int list \<Rightarrow> bool" where
  "levels_inv h = (\<forall>i < length h. h ! i mod 4 = 0)"

text \<open>
  A graph with the given node names and links \<open>(from, to, label)\<close>, before layout, and
  two instances: a chain of \<open>n\<close> nodes, each linked to the next, and a node with two
  children, a label and a self-reference.
\<close>

definition new_graph :: "glyph list list \<Rightarrow> (nat \<times> nat \<times> glyph list) list \<Rightarrow> Graph" where
  "new_graph names links =
     \<lparr>nodes = map (\<lambda>(i, nm). \<lparr>name = nm, index = i, gridCoord = None\<rparr>) (enumerate 0 names),
      edges = map (\<lambda>(f, t, label). \<lparr>edge_from = f, edge_to = t, edge_text = label, path = [],
                      labelLine = [], startDir = None, endDir = None\<rparr>) links,
      grid = [], columnWidth = [], rowHeight = [], writes = []\<rparr>"

definition chain :: "nat \<Rightarrow> Graph" where
  "chain n = new_graph (map (\<lambda>i. [65 + i]) [0..<n]) (map (\<lambda>i. (i, Suc i, [])) [0..<n - 1])"

definition fork :: Graph where
  "fork = new_graph [[65], [66], [67]] [(0, 1, []), (0, 2, [104, 105]), (1, 1, [])]"

lemma new_graph_wf:
  "\<forall>l \<in> set links. fst l < length names \<and> fst (snd l) < length names \<Longrightarrow>
   wf_graph (new_graph names links)"
  by (auto simp add: wf_graph_def new_graph_def nth_enumerate_eq)

lemma new_graph_unplaced: "unplaced (new_graph names links)"
  by (simp add: unplaced_def new_graph_def nth_enumerate_eq)

lemma frame_refl [simp]: "frame g g"
  by (simp add: frame_def)

lemma frame_trans:
  assumes a: "frame g g'" and b: "frame g' g''"
  shows "frame g g''"
proof -
  have len: "length (nodes g') = length (nodes g)" using a by (simp add: frame_def)
  have "\<forall>p < length (nodes g). name (nodes g'' ! p) = name (nodes g ! p) \<and>
         index (nodes g'' ! p) = index (nodes g ! p) \<and>
         (gridCoord (nodes g ! p) \<noteq> None \<longrightarrow> gridCoord (nodes g'' ! p) = gridCoord (nodes g ! p))"
  proof (intro allI impI)
    fix p assume p: "p < length (nodes g)"
    then have p': "p < length (nodes g')" using len by simp
    have 1: "name (nodes g' ! p) = name (nodes g ! p)" "index (nodes g' ! p) = index (nodes g ! p)"
      "gridCoord (nodes g ! p) \<noteq> None \<longrightarrow> gridCoord (nodes g' ! p) = gridCoord (nodes g ! p)"
      using a p unfolding frame_def by blast+
    have 2: "name (nodes g'' ! p) = name (nodes g' ! p)" "index (nodes g'' ! p) = index (nodes g' ! p)"
      "gridCoord (nodes g' ! p) \<noteq> None \<longrightarrow> gridCoord (nodes g'' ! p) = gridCoord (nodes g' ! p)"
      using b p' unfolding frame_def by blast+
    show "name (nodes g'' ! p) = name (nodes g ! p) \<and>
         index (nodes g'' ! p) = index (nodes g ! p) \<and>
         (gridCoord (nodes g ! p) \<noteq> None \<longrightarrow> gridCoord (nodes g'' ! p) = gridCoord (nodes g ! p))"
      using 1 2 by simp
  qed
  then show ?thesis using a b unfolding frame_def by simp
qed

lemma frame_wf: "frame g g' \<Longrightarrow> wf_graph g \<Longrightarrow> wf_graph g'"
  unfolding frame_def wf_graph_def by simp

lemma map_of_fold_update:
  "map_of (foldl (\<lambda>gr k. AList.update k i gr) gr0 ks) k' =
     (if k' \<in> set ks then Some i else map_of gr0 k')"
  by (induction ks arbitrary: gr0) (auto simp add: update_conv')

lemma reserved_cells_mem:
  "k \<in> set (reserved_cells c) \<longleftrightarrow>
     (fst k - fst c \<in> {0, 1, 2} \<and> snd k - snd c \<in> {0, 1, 2})"
proof -
  obtain kx ky where k: "k = (kx, ky)" by (cases k)
  obtain cx cy where c: "c = (cx, cy)" by (cases c)
  have "k \<in> set (reserved_cells c) \<longleftrightarrow>
      (kx = cx \<or> kx = cx + 1 \<or> kx = cx + 2) \<and> (ky = cy \<or> ky = cy + 1 \<or> ky = cy + 2)"
    unfolding k c by (simp add: reserved_cells_def) blast
  also have "\<dots> \<longleftrightarrow> (kx - cx \<in> {0, 1, 2} \<and> ky - cy \<in> {0, 1, 2})"
    by (simp add: algebra_simps) 
  finally show ?thesis by (simp add: k c)
qed

lemma anchor_reserved: "c \<in> set (reserved_cells c)"
  by (simp add: reserved_cells_mem)

lemma same_multiple_of_four:
  "(x::int) mod 4 = 0 \<Longrightarrow> y mod 4 = 0 \<Longrightarrow> 0 \<le> k - x \<Longrightarrow> k - x \<le> 2 \<Longrightarrow>
   0 \<le> k - y \<Longrightarrow> k - y \<le> 2 \<Longrightarrow> x = y"
  by presburger

lemma blocks_overlap_same_anchor:
  assumes k: "k \<in> set (reserved_cells c)" "k \<in> set (reserved_cells c')"
    and m: "fst c mod 4 = 0" "snd c mod 4 = 0" "fst c' mod 4 = 0" "snd c' mod 4 = 0"
  shows "c = c'"
proof -
  have x: "0 \<le> fst k - fst c" "fst k - fst c \<le> 2" "0 \<le> fst k - fst c'" "fst k - fst c' \<le> 2"
    and y: "0 \<le> snd k - snd c" "snd k - snd c \<le> 2" "0 \<le> snd k - snd c'" "snd k - snd c' \<le> 2"
    using k by (auto simp add: reserved_cells_mem)
  have "fst c = fst c'" using m(1,3) x by (rule same_multiple_of_four)
  moreover have "snd c = snd c'" using m(2,4) y by (rule same_multiple_of_four)
  ultimately show ?thesis by (simp add: prod_eq_iff)
qed

lemma placed_invD:
  assumes "placed_inv g" "p < length (nodes g)" "gridCoord (nodes g ! p) = Some c"
  shows "fst c mod 4 = 0" "snd c mod 4 = 0"
    and "\<And>k. k \<in> set (reserved_cells c) \<Longrightarrow> map_of (grid g) k = Some p"
  using assms unfolding placed_inv_def by blast+

lemma reserveSpotInGrid_ok:
  assumes "wf_graph g" "placed_inv g" "i < length (nodes g)" "gridCoord (nodes g ! i) = None"
    "fst c mod 4 = 0" "snd c mod 4 = 0"
  shows "\<exists>g' c'. reserveSpotInGrid d g i c = Inr (g', c') \<and> wf_graph g' \<and> placed_inv g' \<and>
     frame g g' \<and> gridCoord (nodes g' ! i) = Some c' \<and>
     (\<forall>p < length (nodes g). p \<noteq> i \<longrightarrow> nodes g' ! p = nodes g ! p)"
  using assms
proof (induction d g i c rule: reserveSpotInGrid.induct)
  case (1 d g i c)
  show ?case
  proof (cases "map_of (grid g) c \<noteq> None")
    case True
    show ?thesis
    proof (cases "d = LR")
      case LR: True
      have "\<exists>g' c'. reserveSpotInGrid d g i (fst c, snd c + 4) = Inr (g', c') \<and> wf_graph g' \<and>
          placed_inv g' \<and> frame g g' \<and> gridCoord (nodes g' ! i) = Some c' \<and>
          (\<forall>p < length (nodes g). p \<noteq> i \<longrightarrow> nodes g' ! p = nodes g ! p)"
        using "1.prems" by (intro "1.IH"(1) [OF True LR]) simp_all
      then show ?thesis using True LR by (subst reserveSpotInGrid.simps) simp
    next
      case TD: False
      have "\<exists>g' c'. reserveSpotInGrid d g i (fst c + 4, snd c) = Inr (g', c') \<and> wf_graph g' \<and>
          placed_inv g' \<and> frame g g' \<and> gridCoord (nodes g' ! i) = Some c' \<and>
          (\<forall>p < length (nodes g). p \<noteq> i \<longrightarrow> nodes g' ! p = nodes g ! p)"
        using "1.prems" by (intro "1.IH"(2) [OF True TD]) simp_all
      then show ?thesis using True TD by (subst reserveSpotInGrid.simps) simp
    qed
  next
    case False
    then have free: "map_of (grid g) c = None" by simp
    define g' where "g' = g\<lparr>grid := foldl (\<lambda>gr k. AList.update k i gr) (grid g) (reserved_cells c),
                    nodes := (nodes g)[i := (nodes g ! i)\<lparr>gridCoord := Some c\<rparr>]\<rparr>"
    have res: "reserveSpotInGrid d g i c = Inr (g', c)"
      using free "1.prems"(3) by (subst reserveSpotInGrid.simps) (simp add: g'_def)
    have gr: "\<And>k. map_of (grid g') k = (if k \<in> set (reserved_cells c) then Some i else map_of (grid g) k)"
      by (simp add: g'_def map_of_fold_update)
    have len: "length (nodes g') = length (nodes g)" by (simp add: g'_def)
    have nd: "\<And>p. p < length (nodes g) \<Longrightarrow> nodes g' ! p =
        (if p = i then (nodes g ! i)\<lparr>gridCoord := Some c\<rparr> else nodes g ! p)"
      by (simp add: g'_def nth_list_update)
    have fr: "frame g g'"
      unfolding frame_def using "1.prems"(4) by (simp add: len nd) (simp add: g'_def)
    have wf: "wf_graph g'" using fr "1.prems"(1) by (rule frame_wf)
    have pl: "placed_inv g'"
      unfolding placed_inv_def
    proof (intro allI impI)
      fix p c' assume p: "p < length (nodes g')" and c': "gridCoord (nodes g' ! p) = Some c'"
      show "fst c' mod 4 = 0 \<and> snd c' mod 4 = 0 \<and>
        (\<forall>k \<in> set (reserved_cells c'). map_of (grid g') k = Some p)"
      proof (cases "p = i")
        case True
        then have "c' = c" using c' p len nd by simp
        then show ?thesis using "1.prems"(5,6) True by (simp add: gr)
      next
        case False
        then have old: "gridCoord (nodes g ! p) = Some c'" using c' p len nd by simp
        have pg: "p < length (nodes g)" using p len by simp
        have m: "fst c' mod 4 = 0" "snd c' mod 4 = 0"
          and own: "\<forall>k \<in> set (reserved_cells c'). map_of (grid g) k = Some p"
          using placed_invD [OF "1.prems"(2) pg old] by blast+
        have "c' \<noteq> c" using own anchor_reserved [of c'] free by auto
        then have "\<forall>k \<in> set (reserved_cells c'). k \<notin> set (reserved_cells c)"
          using blocks_overlap_same_anchor [OF _ _ "1.prems"(5,6) m] by blast
        then show ?thesis using m own by (simp add: gr)
      qed
    qed
    have "gridCoord (nodes g' ! i) = Some c" using "1.prems"(3) nd by simp
    moreover have "\<forall>p < length (nodes g). p \<noteq> i \<longrightarrow> nodes g' ! p = nodes g ! p"
      using nd by simp
    ultimately show ?thesis using res wf pl fr by blast
  qed
qed

lemma read_level_mod:
  "levels_inv h \<Longrightarrow> read_level h level = Some v \<Longrightarrow> v mod 4 = 0"
  by (auto simp add: levels_inv_def read_level_def split: if_splits)

lemma levels_inv_update:
  assumes "levels_inv h" "v mod 4 = 0"
  shows "levels_inv (h[i := v])"
  unfolding levels_inv_def
proof (intro allI impI)
  fix j assume j: "j < length (h[i := v])"
  show "h[i := v] ! j mod 4 = 0"
  proof (cases "j = i")
    case True
    then show ?thesis using j assms(2) by simp
  next
    case False
    then show ?thesis using j assms(1) by (simp add: levels_inv_def)
  qed
qed

lemma find_roots_prefix:
  "distinct (fst (foldl (find_roots_step g) ([], {}) [0..<m])) \<and>
   set (fst (foldl (find_roots_step g) ([], {}) [0..<m])) \<subseteq> {..<m}"
proof (induction m)
  case 0
  then show ?case by simp
next
  case (Suc m)
  obtain roots found where st: "foldl (find_roots_step g) ([], {}) [0..<m] = (roots, found)"
    by (cases "foldl (find_roots_step g) ([], {}) [0..<m]")
  have r: "distinct roots" "set roots \<subseteq> {..<m}" using Suc st by simp_all
  have "fst (foldl (find_roots_step g) ([], {}) [0..<Suc m]) =
      (if name (nodes g ! m) \<in> found then roots else roots @ [m])"
    by (simp add: st find_roots_step_def Let_def)
  then show ?case using r by auto
qed

lemma find_roots_distinct:
  "distinct (find_roots g) \<and> (\<forall>r \<in> set (find_roots g). r < length (nodes g))"
  using find_roots_prefix [of g "length (nodes g)"] by (auto simp add: find_roots_def)

lemma place_roots_ok:
  "wf_graph g \<Longrightarrow> placed_inv g \<Longrightarrow> levels_inv h \<Longrightarrow> distinct rs \<Longrightarrow>
   (\<forall>r \<in> set rs. r < length (nodes g) \<and> gridCoord (nodes g ! r) = None) \<Longrightarrow>
   place_roots d rs (g, h) = Inr (g', h') \<Longrightarrow>
   wf_graph g' \<and> placed_inv g' \<and> frame g g' \<and> levels_inv h'"
proof (induction rs arbitrary: g h)
  case Nil
  then show ?case by simp
next
  case (Cons r rs)
  obtain h0 where h0: "read_level h 0 = Some h0"
    using Cons.prems(6) by (cases "read_level h 0") simp_all
  have m: "h0 mod 4 = 0" using Cons.prems(3) h0 by (rule read_level_mod)
  have r: "r < length (nodes g)" "gridCoord (nodes g ! r) = None" using Cons.prems(5) by simp_all
  have idx: "index (nodes g ! r) = r" using Cons.prems(1) r(1) by (simp add: wf_graph_def)
  let ?c = "if d = LR then (0, h0) else (h0, 0)"
  have "\<exists>g1 c1. reserveSpotInGrid d g r ?c = Inr (g1, c1) \<and> wf_graph g1 \<and> placed_inv g1 \<and>
     frame g g1 \<and> gridCoord (nodes g1 ! r) = Some c1 \<and>
     (\<forall>p < length (nodes g). p \<noteq> r \<longrightarrow> nodes g1 ! p = nodes g ! p)"
    using Cons.prems(1,2) r m by (intro reserveSpotInGrid_ok) simp_all
  then obtain g1 c1 where g1: "reserveSpotInGrid d g r ?c = Inr (g1, c1)" "wf_graph g1"
    "placed_inv g1" "frame g g1"
    "\<forall>p < length (nodes g). p \<noteq> r \<longrightarrow> nodes g1 ! p = nodes g ! p"
    by blast
  have rest: "place_roots d rs (g1, h[0 := h0 + 4]) = Inr (g', h')"
    using Cons.prems(6) h0 g1(1) idx by simp
  have len: "length (nodes g1) = length (nodes g)" using g1(4) by (simp add: frame_def)
  have un: "\<forall>r' \<in> set rs. r' < length (nodes g1) \<and> gridCoord (nodes g1 ! r') = None"
    using Cons.prems(4,5) g1(5) len by auto
  have lv: "levels_inv (h[0 := h0 + 4])" using Cons.prems(3) m by (intro levels_inv_update) simp_all
  have "wf_graph g' \<and> placed_inv g' \<and> frame g1 g' \<and> levels_inv h'"
    using g1(2,3) lv Cons.prems(4) un rest by (intro Cons.IH) simp_all
  then show ?case using g1(4) frame_trans by blast
qed

lemma place_children_ok:
  "wf_graph g \<Longrightarrow> placed_inv g \<Longrightarrow> levels_inv h \<Longrightarrow> childLevel mod 4 = 0 \<Longrightarrow>
   (\<forall>v. highestPosition = Some v \<longrightarrow> v mod 4 = 0) \<Longrightarrow>
   (\<forall>c \<in> set cs. c < length (nodes g)) \<Longrightarrow>
   place_children d childLevel highestPosition cs (g, h) = Inr (g', h') \<Longrightarrow>
   wf_graph g' \<and> placed_inv g' \<and> frame g g' \<and> levels_inv h'"
proof (induction cs arbitrary: g h)
  case Nil
  then show ?case by simp
next
  case (Cons c cs)
  show ?case
  proof (cases "gridCoord (nodes g ! c)")
    case (Some placed)
    then have "place_children d childLevel highestPosition cs (g, h) = Inr (g', h')"
      using Cons.prems(7) by simp
    then show ?thesis using Cons.prems(1-6) by (intro Cons.IH) simp_all
  next
    case None
    then have un: "gridCoord (nodes g ! c) = None" by simp
    obtain v where v: "highestPosition = Some v"
      using Cons.prems(7) un by (cases highestPosition) simp_all
    have m: "v mod 4 = 0" using Cons.prems(5) v by simp
    have c: "c < length (nodes g)" using Cons.prems(6) by simp
    have idx: "index (nodes g ! c) = c" using Cons.prems(1) c by (simp add: wf_graph_def)
    let ?c = "if d = LR then (childLevel, v) else (v, childLevel)"
    have "\<exists>g1 c1. reserveSpotInGrid d g c ?c = Inr (g1, c1) \<and> wf_graph g1 \<and> placed_inv g1 \<and>
       frame g g1 \<and> gridCoord (nodes g1 ! c) = Some c1 \<and>
       (\<forall>p < length (nodes g). p \<noteq> c \<longrightarrow> nodes g1 ! p = nodes g ! p)"
      using Cons.prems(1,2) c un m Cons.prems(4) by (intro reserveSpotInGrid_ok) simp_all
    then obtain g1 c1 where g1: "reserveSpotInGrid d g c ?c = Inr (g1, c1)" "wf_graph g1"
      "placed_inv g1" "frame g g1"
      by blast
    have rest: "place_children d childLevel highestPosition cs
        (g1, h[nat childLevel := v + 4]) = Inr (g', h')"
      using Cons.prems(7) un v g1(1) idx by simp
    have len: "length (nodes g1) = length (nodes g)" using g1(4) by (simp add: frame_def)
    have lv: "levels_inv (h[nat childLevel := v + 4])"
      using Cons.prems(3) m by (intro levels_inv_update) simp_all
    have "wf_graph g' \<and> placed_inv g' \<and> frame g1 g' \<and> levels_inv h'"
      using g1(2,3) lv Cons.prems(4,5,6) rest len by (intro Cons.IH) simp_all
    then show ?thesis using g1(4) frame_trans by blast
  qed
qed

lemma getChildren_valid:
  "wf_graph g \<Longrightarrow> c \<in> set (getChildren g n) \<Longrightarrow> c < length (nodes g)"
  by (auto simp add: wf_graph_def getChildren_def)

lemma place_levels_ok:
  "wf_graph g \<Longrightarrow> placed_inv g \<Longrightarrow> levels_inv h \<Longrightarrow>
   (\<forall>p \<in> set ps. p < length (nodes g)) \<Longrightarrow>
   place_levels d ps (g, h) = Inr (g', h') \<Longrightarrow>
   wf_graph g' \<and> placed_inv g' \<and> frame g g' \<and> levels_inv h'"
proof (induction ps arbitrary: g h)
  case Nil
  then show ?case by simp
next
  case (Cons p ps)
  have p: "p < length (nodes g)" using Cons.prems(4) by simp
  show ?case
  proof (cases "gridCoord (nodes g ! p)")
    case None
    then have "place_levels d ps (g, h) = Inr (g', h')" using Cons.prems(5) by simp
    then show ?thesis using Cons.prems(1-4) by (intro Cons.IH) simp_all
  next
    case (Some c)
    define childLevel where "childLevel = (if d = LR then fst c + 4 else snd c + 4)"
    have cm: "fst c mod 4 = 0" "snd c mod 4 = 0"
      using placed_invD(1,2) [OF Cons.prems(2) p Some] by simp_all
    have lm: "childLevel mod 4 = 0" using cm by (simp add: childLevel_def)
    obtain g1 h1 where st: "place_children d childLevel (read_level h childLevel)
        (getChildren g (nodes g ! p)) (g, h) = Inr (g1, h1)"
      and rest: "place_levels d ps (g1, h1) = Inr (g', h')"
      using Cons.prems(5) Some
      by (auto simp add: Let_def childLevel_def split: sum.splits)
    have "wf_graph g1 \<and> placed_inv g1 \<and> frame g g1 \<and> levels_inv h1"
      using Cons.prems(1,2,3) lm _ _ st
    proof (rule place_children_ok)
      show "\<forall>v. read_level h childLevel = Some v \<longrightarrow> v mod 4 = 0"
        using read_level_mod [OF Cons.prems(3)] by blast
      show "\<forall>c \<in> set (getChildren g (nodes g ! p)). c < length (nodes g)"
        using getChildren_valid [OF Cons.prems(1)] by blast
    qed
    then have g1: "wf_graph g1" "placed_inv g1" "frame g g1" "levels_inv h1" by simp_all
    have len: "length (nodes g1) = length (nodes g)" using g1(3) by (simp add: frame_def)
    have "wf_graph g' \<and> placed_inv g' \<and> frame g1 g' \<and> levels_inv h'"
      using g1(1,2,4) Cons.prems(4) rest len by (intro Cons.IH) simp_all
    then show ?thesis using g1(3) frame_trans by blast
  qed
qed

lemma placement_ok:
  assumes wf: "wf_graph g" and fresh: "\<forall>p < length (nodes g). gridCoord (nodes g ! p) = None"
    and run: "placement d g = Inr g'"
  shows "wf_graph g' \<and> placed_inv g' \<and> frame g g'"
proof -
  obtain g1 h1 where roots: "place_roots d (find_roots g) (g, replicate 100 0) = Inr (g1, h1)"
    using run by (auto simp add: placement_def split: sum.splits)
  then obtain h2 where levels: "place_levels d [0..<length (nodes g)] (g1, h1) = Inr (g', h2)"
    using run by (auto simp add: placement_def split: sum.splits)
  have pi: "placed_inv g" using fresh by (simp add: placed_inv_def)
  have lv: "levels_inv (replicate 100 0)" by (simp add: levels_inv_def)
  have "wf_graph g1 \<and> placed_inv g1 \<and> frame g g1 \<and> levels_inv h1"
    using wf pi lv _ _ roots
  proof (rule place_roots_ok)
    show "distinct (find_roots g)" using find_roots_distinct by blast
    show "\<forall>r \<in> set (find_roots g). r < length (nodes g) \<and> gridCoord (nodes g ! r) = None"
      using find_roots_distinct fresh by blast
  qed
  then have g1: "wf_graph g1" "placed_inv g1" "frame g g1" "levels_inv h1" by simp_all
  have len: "length (nodes g1) = length (nodes g)" using g1(3) by (simp add: frame_def)
  have "wf_graph g' \<and> placed_inv g' \<and> frame g1 g' \<and> levels_inv h2"
    using g1(1,2,4) _ levels by (rule place_levels_ok) (simp add: len)
  then show ?thesis using g1(3) frame_trans by blast
qed

text \<open>
  Claim C6. After a placement that ends without an error, the occupancy map gives every
  cell of the 3\<times>3 block at the anchor of a placed node to that node, and a cell that lies
  in the blocks of two placed nodes lies in the block of one node only: the two nodes are
  the same. The anchors are multiples of four, so that testing the anchor cell is enough.
  The statement is about the placements that stay within the hundred entries of
  \<open>highestPositionPerLevel\<close>; beyond them the model ends with \<open>NotANumber\<close>.
\<close>

theorem placement_reserves_blocks:
  assumes "wf_graph g" and "unplaced g" and "placement graphDirection g = Inr g'"
  shows "(\<forall>p c k. p < length (nodes g') \<and> gridCoord (nodes g' ! p) = Some c \<and>
            k \<in> set (reserved_cells c) \<longrightarrow> map_of (grid g') k = Some p) \<and>
         (\<forall>p q c c' k. p < length (nodes g') \<and> q < length (nodes g') \<and>
            gridCoord (nodes g' ! p) = Some c \<and> gridCoord (nodes g' ! q) = Some c' \<and>
            k \<in> set (reserved_cells c) \<and> k \<in> set (reserved_cells c') \<longrightarrow> p = q)"
proof -
  have "wf_graph g' \<and> placed_inv g' \<and> frame g g'"
    using assms(1) _ assms(3) by (rule placement_ok) (use assms(2) in \<open>simp add: unplaced_def\<close>)
  then have pi: "placed_inv g'" by simp
  have own: "\<And>p c k. p < length (nodes g') \<Longrightarrow> gridCoord (nodes g' ! p) = Some c \<Longrightarrow>
      k \<in> set (reserved_cells c) \<Longrightarrow> map_of (grid g') k = Some p"
    using placed_invD(3) [OF pi] by blast
  have "\<And>p q c c' k. p < length (nodes g') \<Longrightarrow> q < length (nodes g') \<Longrightarrow>
      gridCoord (nodes g' ! p) = Some c \<Longrightarrow> gridCoord (nodes g' ! q) = Some c' \<Longrightarrow>
      k \<in> set (reserved_cells c) \<Longrightarrow> k \<in> set (reserved_cells c') \<Longrightarrow> p = q"
  proof -
    fix p q c c' k
    assume "p < length (nodes g')" "gridCoord (nodes g' ! p) = Some c" "k \<in> set (reserved_cells c)"
    then have 1: "map_of (grid g') k = Some p" by (rule own)
    assume "q < length (nodes g')" "gridCoord (nodes g' ! q) = Some c'" "k \<in> set (reserved_cells c')"
    then have 2: "map_of (grid g') k = Some q" by (rule own)
    show "p = q" using 1 2 by simp
  qed
  then show ?thesis using own by blast
qed

theorem placement_reserves_blocks_witness:
  "wf_graph fork \<and> unplaced fork \<and>
   (\<exists>g'. placement LR fork = Inr g' \<and>
      map gridCoord (nodes g') = [Some (0, 0), Some (4, 0), Some (4, 4)] \<and>
      map_of (grid g') (5, 6) = Some 2 \<and> map_of (grid g') (6, 2) = Some 1)"
proof -
  have wf: "wf_graph fork" unfolding fork_def by (rule new_graph_wf) simp
  have un: "unplaced fork" unfolding fork_def by (rule new_graph_unplaced)
  have "case placement LR fork of Inl err \<Rightarrow> False
    | Inr g' \<Rightarrow> map gridCoord (nodes g') = [Some (0, 0), Some (4, 0), Some (4, 4)]"
    by code_simp
  then obtain g' where run: "placement LR fork = Inr g'"
    and pos: "map gridCoord (nodes g') = [Some (0, 0), Some (4, 0), Some (4, 4)]"
    by (auto split: sum.splits)
  have len: "length (nodes g') = 3" using pos by (metis length_map length_Cons list.size(3) numeral_3_eq_3)
  have n1: "gridCoord (nodes g' ! 1) = Some (4, 0)" and n2: "gridCoord (nodes g' ! 2) = Some (4, 4)"
    using pos len by (metis nth_map nth_Cons_0 nth_Cons_Suc One_nat_def Suc_1 numeral_3_eq_3 lessI less_SucI)+
  have c1: "(6, 2) \<in> set (reserved_cells (4, 0))" and c2: "(5, 6) \<in> set (reserved_cells (4, 4))"
    by (simp_all add: reserved_cells_def)
  have "map_of (grid g') (5, 6) = Some 2" "map_of (grid g') (6, 2) = Some 1"
    using placement_reserves_blocks [OF wf un run] len n1 n2 c1 c2 by simp_all
  then show ?thesis using wf un run pos by simp
qed

text \<open>
  The input at which the source leaves claim C6: a chain of 26 nodes, laid out from left
  to right. The node \<open>i\<close> of the chain is placed in column \<open>4 * i\<close>, so the children of
  the 25th node belong to level 100, and \<open>highestPositionPerLevel[100]\<close> does not exist.
  The source goes on with the coordinate \<open>(100, undefined)\<close>; the model ends here.
\<close>

theorem placement_beyond_level_array: "placement LR (chain 26) = Inl NotANumber"
  by code_simp

section \<open>Layout with JavaScript numbers (GraphImpl.createMapping)\<close>

text \<open>
  \<open>createMapping\<close> goes on when placement has read beyond the hundred entries of
  \<open>highestPositionPerLevel\<close>: the coordinate it has read is \<open>undefined\<close>, a sum with it is
  \<open>NaN\<close>, and sizing and routing run with these values. To follow every run, this section
  models the layout again with coordinates that are JavaScript values: an integer, \<open>NaN\<close>
  or \<open>undefined\<close>.
\<close>

datatype number = Num int | NaN | Undef

text \<open>
  \<open>v + k\<close> and \<open>v > 0\<close> for a value \<open>v\<close> and an integer \<open>k\<close>; \<open>Math.max\<close>, \<open>Math.min\<close> and
  \<open>minX + Math.floor((maxX - minX) / 2)\<close>. \<open>undefined\<close> converts to \<open>NaN\<close>, \<open>NaN\<close> makes
  every sum \<open>NaN\<close> and every comparison false.
\<close>

definition js_add :: "number \<Rightarrow> int \<Rightarrow> number" where
  "js_add v k = (case v of Num i \<Rightarrow> Num (i + k) | NaN \<Rightarrow> NaN | Undef \<Rightarrow> NaN)"

definition js_positive :: "number \<Rightarrow> bool" where
  "js_positive v = (case v of Num i \<Rightarrow> 0 < i | NaN \<Rightarrow> False | Undef \<Rightarrow> False)"

definition js_max :: "number \<Rightarrow> number \<Rightarrow> number" where
  "js_max a b = (case (a, b) of (Num i, Num j) \<Rightarrow> Num (max i j) | _ \<Rightarrow> NaN)"

definition js_min :: "number \<Rightarrow> number \<Rightarrow> number" where
  "js_min a b = (case (a, b) of (Num i, Num j) \<Rightarrow> Num (min i j) | _ \<Rightarrow> NaN)"

definition js_middle :: "number \<Rightarrow> number \<Rightarrow> number" where
  "js_middle minX maxX =
     (case (minX, maxX) of (Num i, Num j) \<Rightarrow> Num (i + (j - i) div 2) | _ \<Rightarrow> NaN)"

text \<open>
  A grid coordinate. The occupancy map is keyed by the string \<open>`${x},${y}`\<close>, which is
  \<open>"NaN"\<close> for \<open>NaN\<close> and \<open>"undefined"\<close> for \<open>undefined\<close>: two keys are the same string
  exactly when the pairs are equal. The size maps are keyed by the number itself, and a
  \<open>Map\<close> takes \<open>NaN\<close> for equal to \<open>NaN\<close>. So all three maps are association lists on
  these values, as in the integer model.
\<close>

type_synonym JsCoord = "number \<times> number"

record JsNode =
  js_name :: "glyph list"
  js_index :: nat
  js_gridCoord :: "JsCoord option"

record JsEdge =
  js_from :: nat
  js_to :: nat
  js_text :: "glyph list"
  js_path :: "JsCoord list"
  js_labelLine :: "JsCoord list"
  js_startDir :: "Direction option"
  js_endDir :: "Direction option"

type_synonym js_write = "axis \<times> number \<times> int option \<times> int"

text \<open>
  The field \<open>js_writes\<close> is not in the source: it records every \<open>set\<close> on \<open>columnWidth\<close>
  and \<open>rowHeight\<close> (which map, the key, the value found there before, the value
  written). Nothing reads it.
\<close>

record JsGraph =
  js_nodes :: "JsNode list"
  js_edges :: "JsEdge list"
  js_grid :: "(JsCoord \<times> nat) list"
  js_columnWidth :: "(number \<times> int) list"
  js_rowHeight :: "(number \<times> int) list"
  js_writes :: "js_write list"

text \<open>
  What \<open>createMapping\<close> can throw: a TypeError, a RangeError, or an \<open>Error\<close> with one of
  the messages of \<open>error\<close>.
\<close>

datatype exception = JsTypeError | JsRangeError | JsError error

subsection \<open>Placement\<close>

definition js_getChildren :: "JsGraph \<Rightarrow> JsNode \<Rightarrow> nat list" where
  "js_getChildren g n =
     map js_to (filter (\<lambda>e. js_name (js_nodes g ! js_from e) = js_name n) (js_edges g))"

text \<open>
  The nine keys \<open>reserveSpotInGrid\<close> reserves, in the order of its two loops; with an
  \<open>undefined\<close> coordinate the key holds \<open>NaN\<close>, the value of \<open>undefined + 0\<close>.
\<close>

definition js_reserved :: "JsCoord \<Rightarrow> JsCoord list" where
  "js_reserved c = [(js_add (fst c) x, js_add (snd c) y). x \<leftarrow> [0, 1, 2], y \<leftarrow> [0, 1, 2]]"

text \<open>The coordinate of the next request after a collision.\<close>

definition js_moved :: "GraphDirection \<Rightarrow> JsCoord \<Rightarrow> JsCoord" where
  "js_moved graphDirection c =
     (if graphDirection = LR then (fst c, js_add (snd c) 4) else (js_add (fst c) 4, snd c))"

text \<open>
  \<open>reserveSpotInGrid(this.nodes[i], requestedCoord)\<close>. After a collision the function
  calls itself with the moved coordinate. When that is the coordinate it was called with
  (\<open>NaN + 4\<close> is \<open>NaN\<close>), the calls never end and the engine throws a RangeError for the
  exhausted stack.
\<close>

function js_reserveSpotInGrid ::
  "GraphDirection \<Rightarrow> JsGraph \<Rightarrow> nat \<Rightarrow> JsCoord \<Rightarrow> exception + JsGraph \<times> JsCoord" where
  "js_reserveSpotInGrid graphDirection g i requestedCoord =
     (if map_of (js_grid g) requestedCoord \<noteq> None then
        (if js_moved graphDirection requestedCoord = requestedCoord then Inl JsRangeError
         else js_reserveSpotInGrid graphDirection g i (js_moved graphDirection requestedCoord))
      else if i < length (js_nodes g)
      then Inr (g\<lparr>js_grid := foldl (\<lambda>gr k. AList.update k i gr) (js_grid g)
                                   (js_reserved requestedCoord),
                    js_nodes := (js_nodes g)[i := (js_nodes g ! i)\<lparr>js_gridCoord := Some requestedCoord\<rparr>]\<rparr>,
                requestedCoord)
      else Inl JsTypeError)"
  by pat_completeness auto

text \<open>
  The calls end: an integer coordinate moves up past the finitely many keys of its line,
  \<open>undefined\<close> becomes \<open>NaN\<close>, and \<open>NaN\<close> is not moved.
\<close>

definition js_rank :: "GraphDirection \<Rightarrow> JsGraph \<Rightarrow> JsCoord \<Rightarrow> nat" where
  "js_rank graphDirection g c =
     (case (if graphDirection = LR then snd c else fst c) of
        Num j \<Rightarrow> length (filter (\<lambda>k. (if graphDirection = LR then fst k = fst c else snd k = snd c) \<and>
                     (\<exists>j'. (if graphDirection = LR then snd k else fst k) = Num j' \<and> j \<le> j'))
                   (map fst (js_grid g)))
      | Undef \<Rightarrow> 1
      | NaN \<Rightarrow> 0)"

lemma js_rank_less:
  assumes occ: "map_of (js_grid g) c \<noteq> None" and mv: "js_moved d c \<noteq> c"
  shows "js_rank d g (js_moved d c) < js_rank d g c"
proof (cases "if d = LR then snd c else fst c")
  case (Num j)
  have mem: "c \<in> set (map fst (js_grid g))"
    using occ by (auto simp add: map_of_eq_None_iff)
  show ?thesis
  proof (cases "d = LR")
    case True
    then have j: "snd c = Num j" using Num by simp
    have "length (filter (\<lambda>k. fst k = fst c \<and> (\<exists>j'. snd k = Num j' \<and> j + 4 \<le> j')) (map fst (js_grid g)))
        < length (filter (\<lambda>k. fst k = fst c \<and> (\<exists>j'. snd k = Num j' \<and> j \<le> j')) (map fst (js_grid g)))"
      by (rule filter_length_less [OF mem]) (auto simp add: j)
    then show ?thesis using True j by (simp add: js_rank_def js_moved_def js_add_def)
  next
    case False
    then have j: "fst c = Num j" using Num by simp
    have "length (filter (\<lambda>k. snd k = snd c \<and> (\<exists>j'. fst k = Num j' \<and> j + 4 \<le> j')) (map fst (js_grid g)))
        < length (filter (\<lambda>k. snd k = snd c \<and> (\<exists>j'. fst k = Num j' \<and> j \<le> j')) (map fst (js_grid g)))"
      by (rule filter_length_less [OF mem]) (auto simp add: j)
    then show ?thesis using False j by (simp add: js_rank_def js_moved_def js_add_def)
  qed
next
  case NaN
  then have "js_moved d c = c" by (cases c) (auto simp add: js_moved_def js_add_def split: if_splits)
  then show ?thesis using mv by simp
next
  case Undef
  then show ?thesis by (auto simp add: js_rank_def js_moved_def js_add_def split: if_splits)
qed

termination js_reserveSpotInGrid
proof (relation "measure (\<lambda>(d, g, i, c). js_rank d g c)")
  show "wf (measure (\<lambda>(d, g, i, c). js_rank d g c))" by simp
next
  fix graphDirection :: GraphDirection and g :: JsGraph and i :: nat and requestedCoord :: JsCoord
  assume "map_of (js_grid g) requestedCoord \<noteq> None"
    and "js_moved graphDirection requestedCoord \<noteq> requestedCoord"
  then have "js_rank graphDirection g (js_moved graphDirection requestedCoord)
      < js_rank graphDirection g requestedCoord"
    by (rule js_rank_less)
  then show "((graphDirection, g, i, js_moved graphDirection requestedCoord),
        graphDirection, g, i, requestedCoord) \<in> measure (\<lambda>(d, g, i, c). js_rank d g c)"
    by simp
qed

declare js_reserveSpotInGrid.simps [simp del]

text \<open>The first loop of \<open>createMapping\<close>: the roots (see \<open>find_roots\<close>).\<close>

definition js_find_roots_step ::
  "JsGraph \<Rightarrow> nat list \<times> glyph list set \<Rightarrow> nat \<Rightarrow> nat list \<times> glyph list set" where
  "js_find_roots_step g st p =
     (let n = js_nodes g ! p;
          rootNodes = (if js_name n \<in> snd st then fst st else fst st @ [p]);
          nodesFound = insert (js_name n) (snd st)
      in (rootNodes, foldl (\<lambda>found child. insert (js_name (js_nodes g ! child)) found) nodesFound
                       (js_getChildren g n)))"

definition js_find_roots :: "JsGraph \<Rightarrow> nat list" where
  "js_find_roots g = fst (foldl (js_find_roots_step g) ([], {}) [0..<length (js_nodes g)])"

text \<open>
  The array \<open>highestPositionPerLevel\<close> is read and written by index only. An array is an
  object: \<open>a[k]\<close> for any value \<open>k\<close> reads the property named by \<open>k\<close>, \<open>undefined\<close> when
  there is none, and \<open>a[k] = v\<close> sets it. \<open>new Array(100).fill(0)\<close> has the properties 0
  to 99, all 0.
\<close>

type_synonym levels = "number \<Rightarrow> number"

definition new_levels :: levels where
  "new_levels = (\<lambda>level. case level of
       Num i \<Rightarrow> if 0 \<le> i \<and> i < 100 then Num 0 else Undef
     | NaN \<Rightarrow> Undef
     | Undef \<Rightarrow> Undef)"

fun js_place_roots ::
  "GraphDirection \<Rightarrow> nat list \<Rightarrow> JsGraph \<times> levels \<Rightarrow> exception + JsGraph \<times> levels" where
  "js_place_roots graphDirection [] st = Inr st"
| "js_place_roots graphDirection (r # rs) (g, highestPositionPerLevel) =
     (case js_reserveSpotInGrid graphDirection g (js_index (js_nodes g ! r))
             (if graphDirection = LR then (Num 0, highestPositionPerLevel (Num 0))
              else (highestPositionPerLevel (Num 0), Num 0)) of
        Inl err \<Rightarrow> Inl err
      | Inr (g', mappingCoord) \<Rightarrow>
          js_place_roots graphDirection rs
            (g', highestPositionPerLevel(Num 0 := js_add (highestPositionPerLevel (Num 0)) 4)))"

text \<open>
  The inner loop of the third loop, over the children of one placed node;
  \<open>highestPosition\<close> was read once before the loop.
\<close>

fun js_place_children ::
  "GraphDirection \<Rightarrow> number \<Rightarrow> number \<Rightarrow> nat list \<Rightarrow> JsGraph \<times> levels
     \<Rightarrow> exception + JsGraph \<times> levels" where
  "js_place_children graphDirection childLevel highestPosition [] st = Inr st"
| "js_place_children graphDirection childLevel highestPosition (child # rest)
       (g, highestPositionPerLevel) =
     (if js_gridCoord (js_nodes g ! child) \<noteq> None
      then js_place_children graphDirection childLevel highestPosition rest
             (g, highestPositionPerLevel)
      else case js_reserveSpotInGrid graphDirection g (js_index (js_nodes g ! child))
                  (if graphDirection = LR then (childLevel, highestPosition)
                   else (highestPosition, childLevel)) of
             Inl err \<Rightarrow> Inl err
           | Inr (g', mappingCoord) \<Rightarrow>
               js_place_children graphDirection childLevel highestPosition rest
                 (g', highestPositionPerLevel(childLevel := js_add highestPosition 4)))"

fun js_place_levels ::
  "GraphDirection \<Rightarrow> nat list \<Rightarrow> JsGraph \<times> levels \<Rightarrow> exception + JsGraph \<times> levels" where
  "js_place_levels graphDirection [] st = Inr st"
| "js_place_levels graphDirection (p # ps) (g, highestPositionPerLevel) =
     (case js_gridCoord (js_nodes g ! p) of
        None \<Rightarrow> js_place_levels graphDirection ps (g, highestPositionPerLevel)
      | Some c \<Rightarrow>
          let childLevel = (if graphDirection = LR then js_add (fst c) 4 else js_add (snd c) 4);
              highestPosition = highestPositionPerLevel childLevel
          in case js_place_children graphDirection childLevel highestPosition
                    (js_getChildren g (js_nodes g ! p)) (g, highestPositionPerLevel) of
               Inl err \<Rightarrow> Inl err
             | Inr st \<Rightarrow> js_place_levels graphDirection ps st)"

definition js_placement :: "GraphDirection \<Rightarrow> JsGraph \<Rightarrow> exception + JsGraph" where
  "js_placement graphDirection g =
     (case js_place_roots graphDirection (js_find_roots g) (g, new_levels) of
        Inl err \<Rightarrow> Inl err
      | Inr st \<Rightarrow>
          (case js_place_levels graphDirection [0..<length (js_nodes g)] st of
             Inl err \<Rightarrow> Inl err
           | Inr (g', highestPositionPerLevel) \<Rightarrow> Inr g'))"

subsection \<open>Sizing\<close>

text \<open>
  \<open>Map.set\<close> on the two size maps, with the record of the write. \<open>get_or_zero\<close> is
  \<open>map.get(key) || 0\<close>.
\<close>

definition set_columnWidth :: "number \<Rightarrow> int \<Rightarrow> JsGraph \<Rightarrow> JsGraph" where
  "set_columnWidth k v g =
     g\<lparr>js_columnWidth := AList.update k v (js_columnWidth g),
       js_writes := js_writes g @ [(Column, k, map_of (js_columnWidth g) k, v)]\<rparr>"

definition set_rowHeight :: "number \<Rightarrow> int \<Rightarrow> JsGraph \<Rightarrow> JsGraph" where
  "set_rowHeight k v g =
     g\<lparr>js_rowHeight := AList.update k v (js_rowHeight g),
       js_writes := js_writes g @ [(Row, k, map_of (js_rowHeight g) k, v)]\<rparr>"

definition get_or_zero :: "(number \<times> int) list \<Rightarrow> number \<Rightarrow> int" where
  "get_or_zero m k = (case map_of m k of None \<Rightarrow> 0 | Some v \<Rightarrow> v)"

text \<open>
  \<open>setColumnWidth(n)\<close>: the three columns and the three rows of the node are merged with
  \<open>max\<close>; the column and the row before the node are set to the padding.
  \<open>place_column\<close> and \<open>place_row\<close> are the bodies of its two loops for the index and
  size \<open>(idx, col)\<close>, \<open>padding_before\<close> its last two statements.
\<close>

definition place_column :: "number \<Rightarrow> JsGraph \<Rightarrow> int \<times> int \<Rightarrow> JsGraph" where
  "place_column x g ic =
     (let xCoord = js_add x (fst ic);
          currentWidth = get_or_zero (js_columnWidth g) xCoord
      in set_columnWidth xCoord (max currentWidth (snd ic)) g)"

definition place_row :: "number \<Rightarrow> JsGraph \<Rightarrow> int \<times> int \<Rightarrow> JsGraph" where
  "place_row y g ir =
     (let yCoord = js_add y (fst ir);
          currentHeight = get_or_zero (js_rowHeight g) yCoord
      in set_rowHeight yCoord (max currentHeight (snd ir)) g)"

definition padding_before :: "JsCoord \<Rightarrow> JsGraph \<Rightarrow> JsGraph" where
  "padding_before c g =
     (let g1 = (if js_positive (fst c) then set_columnWidth (js_add (fst c) (- 1)) PADDING_BETWEEN_X g
                else g)
      in if js_positive (snd c) then set_rowHeight (js_add (snd c) (- 1)) PADDING_BETWEEN_Y g1
         else g1)"

definition setColumnWidth :: "JsGraph \<Rightarrow> JsNode \<Rightarrow> JsGraph" where
  "setColumnWidth g n =
     (case js_gridCoord n of
        None \<Rightarrow> g
      | Some c \<Rightarrow>
          let colsToBePlaced = [1, 2 * BOX_BORDER_PADDING + int (length (js_name n)), 1];
              rowsToBePlaced = [1, 1 + 2 * BOX_BORDER_PADDING, 1]
          in padding_before c
               (foldl (place_row (snd c))
                  (foldl (place_column (fst c)) g (zip [0, 1, 2] colsToBePlaced))
                  (zip [0, 1, 2] rowsToBePlaced)))"

text \<open>
  \<open>increaseGridSizeForPath\<close>: a default size for the columns and rows that have none;
  \<open>default_size\<close> is the body of its loop.
\<close>

definition default_size :: "JsGraph \<Rightarrow> JsCoord \<Rightarrow> JsGraph" where
  "default_size g c =
     (let g1 = (if map_of (js_columnWidth g) (fst c) = None
                then set_columnWidth (fst c) (PADDING_BETWEEN_X div 2) g else g)
      in if map_of (js_rowHeight g1) (snd c) = None
         then set_rowHeight (snd c) (PADDING_BETWEEN_Y div 2) g1 else g1)"

definition increaseGridSizeForPath :: "JsGraph \<Rightarrow> JsCoord list \<Rightarrow> JsGraph" where
  "increaseGridSizeForPath g cells = foldl default_size g cells"

definition calculateLineWidth :: "JsGraph \<Rightarrow> JsCoord list \<Rightarrow> int" where
  "calculateLineWidth g line =
     foldl (\<lambda>totalSize c. totalSize + get_or_zero (js_columnWidth g) (fst c)) 0 line"

text \<open>
  The loop of \<open>determineLabelLine\<close> from index \<open>i\<close> on: the list argument is the path
  from \<open>path[i]\<close>; a line is the pair of its two ends. The loop stops at the first line
  that is wide enough for the label.
\<close>

fun label_scan ::
  "JsGraph \<Rightarrow> int \<Rightarrow> JsCoord \<Rightarrow> int \<Rightarrow> JsCoord \<times> JsCoord \<Rightarrow> JsCoord list
     \<Rightarrow> JsCoord \<times> JsCoord" where
  "label_scan g lenLabel prevStep largestLineSize largestLine [] = largestLine"
| "label_scan g lenLabel prevStep largestLineSize largestLine (step # rest) =
     (let lineWidth = calculateLineWidth g [prevStep, step] in
      if lineWidth \<ge> lenLabel then (prevStep, step)
      else if lineWidth > largestLineSize
      then label_scan g lenLabel step lineWidth (prevStep, step) rest
      else label_scan g lenLabel step largestLineSize largestLine rest)"

text \<open>
  \<open>determineLabelLine\<close>. With a label and a path of fewer than two points the source
  reads \<open>.x\<close> of \<open>undefined\<close>: a TypeError.
\<close>

definition determineLabelLine :: "JsGraph \<Rightarrow> JsEdge \<Rightarrow> exception + JsGraph \<times> JsEdge" where
  "determineLabelLine g e =
     (let lenLabel = int (length (js_text e)) in
      if lenLabel = 0 then Inr (g, e)
      else case js_path e of
             [] \<Rightarrow> Inl JsTypeError
           | [p0] \<Rightarrow> Inl JsTypeError
           | p0 # p1 # rest \<Rightarrow>
               let largestLine = label_scan g lenLabel p0 0 (p0, p1) (p1 # rest);
                   maxX = js_max (fst (fst largestLine)) (fst (snd largestLine));
                   minX = js_min (fst (fst largestLine)) (fst (snd largestLine));
                   middleX = js_middle minX maxX;
                   currentWidth = get_or_zero (js_columnWidth g) middleX
               in Inr (set_columnWidth middleX (max currentWidth (lenLabel + 2)) g,
                       e\<lparr>js_labelLine := [fst largestLine, snd largestLine]\<rparr>))"

subsection \<open>Routing\<close>

text \<open>
  Sum, difference, \<open>Math.abs\<close>, \<open>x < y\<close> and \<open>x === y\<close> of two values. \<open>undefined\<close> is
  strictly equal to itself, \<open>NaN\<close> is not.
\<close>

definition js_plus :: "number \<Rightarrow> number \<Rightarrow> number" where
  "js_plus a b = (case (a, b) of (Num i, Num j) \<Rightarrow> Num (i + j) | _ \<Rightarrow> NaN)"

definition js_minus :: "number \<Rightarrow> number \<Rightarrow> number" where
  "js_minus a b = (case (a, b) of (Num i, Num j) \<Rightarrow> Num (i - j) | _ \<Rightarrow> NaN)"

definition js_abs :: "number \<Rightarrow> number" where
  "js_abs a = (case a of Num i \<Rightarrow> Num \<bar>i\<bar> | NaN \<Rightarrow> NaN | Undef \<Rightarrow> NaN)"

definition js_less :: "number \<Rightarrow> number \<Rightarrow> bool" where
  "js_less a b = (case (a, b) of (Num i, Num j) \<Rightarrow> i < j | _ \<Rightarrow> False)"

definition js_strict_equal :: "number \<Rightarrow> number \<Rightarrow> bool" where
  "js_strict_equal a b =
     (case (a, b) of (Num i, Num j) \<Rightarrow> i = j | (Undef, Undef) \<Rightarrow> True | _ \<Rightarrow> False)"

text \<open>\<open>GridCoord.direction(dir)\<close> and \<open>determineDirection\<close> on these values.\<close>

definition js_direction :: "JsCoord \<Rightarrow> Direction \<Rightarrow> JsCoord" where
  "js_direction c dir = (js_add (fst c) (fst dir), js_add (snd c) (snd dir))"

definition js_determineDirection :: "JsCoord \<Rightarrow> JsCoord \<Rightarrow> Direction" where
  "js_determineDirection from to =
     (if js_strict_equal (fst from) (fst to) then (if js_less (snd from) (snd to) then Down else Up)
      else if js_strict_equal (snd from) (snd to)
      then (if js_less (fst from) (fst to) then Right else Left)
      else if js_less (fst from) (fst to)
      then (if js_less (snd from) (snd to) then LowerRight else UpperRight)
      else (if js_less (snd from) (snd to) then LowerLeft else UpperLeft))"

definition determineStartAndEndDir ::
  "GraphDirection \<Rightarrow> JsCoord \<Rightarrow> JsCoord \<Rightarrow> bool
     \<Rightarrow> error + Direction \<times> Direction \<times> Direction \<times> Direction" where
  "determineStartAndEndDir graphDirection fromCoord toCoord isSelfReference =
     (if isSelfReference then Inr (selfReferenceDirection graphDirection)
      else let d = js_determineDirection fromCoord toCoord in
        if d = LowerRight then
          (if graphDirection = LR then Inr (Down, Left, Right, Up) else Inr (Right, Up, Down, Left))
        else if d = UpperRight then
          (if graphDirection = LR then Inr (Up, Left, Right, Down) else Inr (Right, Down, Up, Left))
        else if d = LowerLeft then
          (if graphDirection = LR then Inr (Down, Right, Left, Up) else Inr (Left, Up, Down, Right))
        else if d = UpperLeft then
          (if graphDirection = LR then Inr (Up, Right, Left, Down) else Inr (Left, Down, Up, Right))
        else (case getOpposite d of
                Inl err \<Rightarrow> Inl err
              | Inr preferredOppositeDir \<Rightarrow> Inr (d, preferredOppositeDir, d, preferredOppositeDir)))"

text \<open>\<open>mergePath\<close> (see \<open>indexToRemove\<close> and \<open>mergePath\<close> of the integer model).\<close>

fun js_indexToRemove :: "JsCoord \<Rightarrow> JsCoord \<Rightarrow> nat \<Rightarrow> JsCoord list \<Rightarrow> nat list" where
  "js_indexToRemove step0 step1 idx [] = []"
| "js_indexToRemove step0 step1 idx (step2 # rest) =
     (if js_determineDirection step0 step1 = js_determineDirection step1 step2 then [idx + 1] else [])
     @ js_indexToRemove step1 step2 (idx + 1) rest"

definition js_mergePath :: "JsCoord list \<Rightarrow> JsCoord list" where
  "js_mergePath cells =
     (if length cells \<le> 2 then cells
      else let removed = js_indexToRemove (cells ! 0) (cells ! 1) 0 (drop 2 cells)
           in map (\<lambda>idx. cells ! idx) (filter (\<lambda>idx. idx \<notin> set removed) [0..<length cells]))"

text \<open>
  The priority queue. \<open>push\<close> appends the item and sorts the array with the comparator
  \<open>a.priority - b.priority\<close>. \<open>Array.prototype.sort\<close> is stable and takes a comparator
  result \<open>NaN\<close> for 0; \<open>js_before a b\<close> says that the comparator is not positive for
  \<open>(a, b)\<close>. The sort is modelled as the insertion sort that \<open>sort_key\<close> is. In one search
  the priorities pushed after the start are all integers or all \<open>NaN\<close> (the heuristic is
  \<open>NaN\<close> exactly when a coordinate of the goal or of the start is no integer), and the
  start is taken from the queue before anything else is pushed: the comparator is
  consistent on every queue that occurs, so that the result of a stable sort is determined.
  With integers it is the order of the integer model, with \<open>NaN\<close> the order of arrival.
\<close>

record JsQueueItem =
  js_coord :: JsCoord
  js_priority :: number

definition js_before :: "number \<Rightarrow> number \<Rightarrow> bool" where
  "js_before a b = (case (a, b) of (Num i, Num j) \<Rightarrow> i \<le> j | _ \<Rightarrow> True)"

fun js_insort :: "JsQueueItem \<Rightarrow> JsQueueItem list \<Rightarrow> JsQueueItem list" where
  "js_insort x [] = [x]"
| "js_insort x (y # ys) =
     (if js_before (js_priority x) (js_priority y) then x # y # ys else y # js_insort x ys)"

definition js_pq_push :: "JsQueueItem list \<Rightarrow> JsQueueItem \<Rightarrow> JsQueueItem list" where
  "js_pq_push items item = foldr js_insort (items @ [item]) []"

definition js_heuristic :: "JsCoord \<Rightarrow> JsCoord \<Rightarrow> number" where
  "js_heuristic a b =
     (let absX = js_abs (js_minus (fst a) (fst b)); absY = js_abs (js_minus (snd a) (snd b))
      in if js_strict_equal absX (Num 0) \<or> js_strict_equal absY (Num 0) then js_plus absX absY
         else js_plus (js_plus absX absY) (Num 1))"

text \<open>
  \<open>getPath\<close> on these values. The maps are keyed by the string \<open>`${x},${y}`\<close>, and the
  goal is recognised by its key. With a coordinate \<open>NaN\<close> a neighbour can have the key of
  the current cell, so the cost of the current cell is read in every round of the loop over
  the directions, as the source does; a missing cost reads as \<open>undefined\<close>.
\<close>

record js_search_state =
  js_pq :: "JsQueueItem list"
  js_costSoFar :: "JsCoord \<rightharpoonup> number"
  js_cameFrom :: "JsCoord \<rightharpoonup> JsCoord option"

definition js_visit ::
  "(JsCoord \<Rightarrow> bool) \<Rightarrow> JsCoord \<Rightarrow> JsCoord \<Rightarrow> js_search_state \<Rightarrow> GridCoord \<Rightarrow> js_search_state" where
  "js_visit isFreeInGrid to current s dir =
     (let next = (js_add (fst current) (fst dir), js_add (snd current) (snd dir))
      in if \<not> isFreeInGrid next \<and> next \<noteq> to then s
         else let newCost = js_plus (case js_costSoFar s current of None \<Rightarrow> Undef | Some c \<Rightarrow> c)
                              (Num 1);
                  pushed = s\<lparr>js_costSoFar := (js_costSoFar s)(next \<mapsto> newCost),
                             js_pq := js_pq_push (js_pq s)
                                        \<lparr>js_coord = next,
                                         js_priority = js_plus newCost (js_heuristic next to)\<rparr>,
                             js_cameFrom := (js_cameFrom s)(next \<mapsto> Some current)\<rparr>
              in case js_costSoFar s next of
                   None \<Rightarrow> pushed
                 | Some existingCost \<Rightarrow> if js_less newCost existingCost then pushed else s)"

partial_function (option) js_reconstruct ::
  "(JsCoord \<rightharpoonup> JsCoord option) \<Rightarrow> JsCoord \<Rightarrow> JsCoord list \<Rightarrow> JsCoord list option" where
  "js_reconstruct cf c cells =
     (case cf c of
        Some (Some previous) \<Rightarrow> js_reconstruct cf previous (c # cells)
      | _ \<Rightarrow> Some (c # cells))"

partial_function (option) js_search ::
  "(JsCoord \<Rightarrow> bool) \<Rightarrow> JsCoord \<Rightarrow> js_search_state \<Rightarrow> (error + JsCoord list) option" where
  "js_search isFreeInGrid to s =
     (case js_pq s of
        [] \<Rightarrow> Some (Inl NoPathFound)
      | currentItem # rest \<Rightarrow>
          let current = js_coord currentItem in
          if current = to then map_option Inr (js_reconstruct (js_cameFrom s) current [])
          else js_search isFreeInGrid to
                 (foldl (js_visit isFreeInGrid to current) (s\<lparr>js_pq := rest\<rparr>) directions))"

declare js_reconstruct.simps [code]
declare js_search.simps [code]

definition js_getPath ::
  "JsCoord \<Rightarrow> JsCoord \<Rightarrow> (JsCoord \<Rightarrow> bool) \<Rightarrow> (error + JsCoord list) option" where
  "js_getPath from to isFreeInGrid =
     js_search isFreeInGrid to
       \<lparr>js_pq = js_pq_push [] \<lparr>js_coord = from, js_priority = Num 0\<rparr>,
        js_costSoFar = [from \<mapsto> Num 0],
        js_cameFrom = [from \<mapsto> None]\<rparr>"

definition isFreeInGrid :: "JsGraph \<Rightarrow> JsCoord \<Rightarrow> bool" where
  "isFreeInGrid g c =
     (if js_less (fst c) (Num 0) \<or> js_less (snd c) (Num 0) then False
      else map_of (js_grid g) c = None)"

text \<open>
  \<open>EdgeImpl.determinePath\<close>. Both \<open>try\<close> blocks catch whatever \<open>getPath\<close> throws,
  log it and return; the \<open>catch\<close> of the preferred candidate stores the variable
  \<open>alternativePath\<close>, which still holds its initial value \<open>[]\<close> there, and the
  alternative candidate is not tried. \<open>None\<close> is a call whose search never ends; \<open>Inl\<close> is
  an error that leaves \<open>determinePath\<close>.
\<close>

definition determinePath :: "GraphDirection \<Rightarrow> JsGraph \<Rightarrow> JsEdge \<Rightarrow> (error + JsEdge) option" where
  "determinePath graphDirection g e =
     (case (js_gridCoord (js_nodes g ! js_from e), js_gridCoord (js_nodes g ! js_to e)) of
        (Some fromCoord, Some toCoord) \<Rightarrow>
          let isSelfReference = (js_from e = js_to e) in
          (case determineStartAndEndDir graphDirection fromCoord toCoord isSelfReference of
             Inl err \<Rightarrow> Some (Inl err)
           | Inr (preferredDir, preferredOppositeDir, alternativeDir, alternativeOppositeDir) \<Rightarrow>
               (case js_getPath (js_direction fromCoord preferredDir)
                       (js_direction toCoord preferredOppositeDir) (isFreeInGrid g) of
                  None \<Rightarrow> None
                | Some (Inl err) \<Rightarrow>
                    Some (Inr (e\<lparr>js_startDir := Some alternativeDir,
                                   js_endDir := Some alternativeOppositeDir, js_path := []\<rparr>))
                | Some (Inr found) \<Rightarrow>
                    let preferredPath = js_mergePath found in
                    (case js_getPath (js_direction fromCoord alternativeDir)
                            (js_direction toCoord alternativeOppositeDir) (isFreeInGrid g) of
                       None \<Rightarrow> None
                     | Some (Inl err) \<Rightarrow>
                         Some (Inr (e\<lparr>js_startDir := Some preferredDir,
                                        js_endDir := Some preferredOppositeDir,
                                        js_path := preferredPath\<rparr>))
                     | Some (Inr foundAlternative) \<Rightarrow>
                         let alternativePath = js_mergePath foundAlternative in
                         if length preferredPath \<le> length alternativePath
                         then Some (Inr (e\<lparr>js_startDir := Some preferredDir,
                                             js_endDir := Some preferredOppositeDir,
                                             js_path := preferredPath\<rparr>))
                         else Some (Inr (e\<lparr>js_startDir := Some alternativeDir,
                                             js_endDir := Some alternativeOppositeDir,
                                             js_path := alternativePath\<rparr>)))))
      | _ \<Rightarrow> Some (Inr e))"

subsection \<open>The run of createMapping\<close>

text \<open>
  How a run of \<open>createMapping\<close> ends: normally, with an exception, or not at all. The
  edge loop is run over the positions of the edges; it returns the graph as it is when
  the run ends or stops going on.
\<close>

datatype outcome = Finished | Thrown exception | NeverReturns

fun route_edges :: "GraphDirection \<Rightarrow> nat list \<Rightarrow> JsGraph \<Rightarrow> JsGraph \<times> outcome" where
  "route_edges graphDirection [] g = (g, Finished)"
| "route_edges graphDirection (j # js) g =
     (case determinePath graphDirection g (js_edges g ! j) of
        None \<Rightarrow> (g, NeverReturns)
      | Some (Inl err) \<Rightarrow> (g, Thrown (JsError err))
      | Some (Inr routed) \<Rightarrow>
          let g1 = increaseGridSizeForPath (g\<lparr>js_edges := (js_edges g)[j := routed]\<rparr>) (js_path routed)
          in case determineLabelLine g1 routed of
               Inl err \<Rightarrow> (g1, Thrown err)
             | Inr (g2, labelled) \<Rightarrow>
                 route_edges graphDirection js (g2\<lparr>js_edges := (js_edges g2)[j := labelled]\<rparr>))"

text \<open>
  \<open>createMapping\<close> up to the end of the edge loop: placement, then \<open>setColumnWidth\<close> for
  every node, then the edge loop. What follows in the source reads the size maps and does
  not write them. Placement writes no size map, so an exception there leaves the maps
  of \<open>g\<close>.
\<close>

definition createMapping :: "GraphDirection \<Rightarrow> JsGraph \<Rightarrow> JsGraph \<times> outcome" where
  "createMapping graphDirection g =
     (case js_placement graphDirection g of
        Inl err \<Rightarrow> (g, Thrown err)
      | Inr placed \<Rightarrow>
          let sized = foldl setColumnWidth placed (js_nodes placed)
          in route_edges graphDirection [0..<length (js_edges sized)] sized)"

text \<open>A graph before layout, and the chain and the fork of the integer model.\<close>

definition js_new_graph :: "glyph list list \<Rightarrow> (nat \<times> nat \<times> glyph list) list \<Rightarrow> JsGraph" where
  "js_new_graph names links =
     \<lparr>js_nodes = map (\<lambda>(i, nm). \<lparr>js_name = nm, js_index = i, js_gridCoord = None\<rparr>) (enumerate 0 names),
      js_edges = map (\<lambda>(f, t, label). \<lparr>js_from = f, js_to = t, js_text = label, js_path = [],
                      js_labelLine = [], js_startDir = None, js_endDir = None\<rparr>) links,
      js_grid = [], js_columnWidth = [], js_rowHeight = [], js_writes = []\<rparr>"

definition js_chain :: "nat \<Rightarrow> JsGraph" where
  "js_chain n = js_new_graph (map (\<lambda>i. [65 + i]) [0..<n]) (map (\<lambda>i. (i, Suc i, [])) [0..<n - 1])"

definition js_fork :: JsGraph where
  "js_fork = js_new_graph [[65], [66], [67]] [(0, 1, []), (0, 2, [104, 105]), (1, 1, [])]"

subsection \<open>Routing one edge\<close>

lemma js_determineDirection_cases:
  "js_determineDirection a b \<in> {Up, Down, Left, Right, LowerRight, UpperRight, LowerLeft, UpperLeft}"
  by (simp add: js_determineDirection_def)

lemma determineStartAndEndDir_no_error:
  "\<exists>pd pod ad aod. determineStartAndEndDir graphDirection fromCoord toCoord isSelf
      = Inr (pd, pod, ad, aod)"
proof (cases isSelf)
  case True
  then show ?thesis
    by (cases "selfReferenceDirection graphDirection") (simp add: determineStartAndEndDir_def)
next
  case False
  have "js_determineDirection fromCoord toCoord
      \<in> {Up, Down, Left, Right, LowerRight, UpperRight, LowerLeft, UpperLeft}"
    by (rule js_determineDirection_cases)
  then show ?thesis using False
    by (auto simp add: determineStartAndEndDir_def Let_def getOpposite_def Direction_defs)
qed

text \<open>
  The layout of the chain of 26 nodes from left to right, and what the last edge of the
  chain finds there. The 25th node is placed at \<open>(96, 0)\<close> and the 26th at
  \<open>(100, undefined)\<close>. The preferred candidate starts at \<open>(97, 0)\<close>, in the upper border
  of the block of the 25th node: its neighbours are two cells of that block, a third one
  below, and \<open>(97, -1)\<close>, which is outside the grid. So the search ends at once with
  \<open>No path found\<close>. Node sizing for this layout writes 181 times, the last seven times for
  the 26th node.
\<close>

lemma chain_beyond_level_array:
  "case js_placement LR (js_chain 26) of
     Inl err \<Rightarrow> False
   | Inr g \<Rightarrow>
       js_gridCoord (js_nodes g ! js_from (js_edges g ! 24)) = Some (Num 96, Num 0) \<and>
       js_gridCoord (js_nodes g ! js_to (js_edges g ! 24)) = Some (Num 100, Undef) \<and>
       js_from (js_edges g ! 24) \<noteq> js_to (js_edges g ! 24) \<and>
       js_getPath (Num 97, Num 0) (Num 100, NaN) (isFreeInGrid g) = Some (Inl NoPathFound) \<and>
       length (js_writes (foldl setColumnWidth g (js_nodes g))) = 181 \<and>
       drop 174 (js_writes (foldl setColumnWidth g (js_nodes g))) =
         [(Column, Num 100, None, 1), (Column, Num 101, None, 3), (Column, Num 102, None, 1),
          (Row, NaN, None, 1), (Row, NaN, Some 1, 3), (Row, NaN, Some 3, 3),
          (Column, Num 99, None, 5)]"
  by code_simp

text \<open>The layout of the fork, and the two candidates of its second edge.\<close>

lemma fork_layout:
  "case js_placement LR js_fork of
     Inl err \<Rightarrow> False
   | Inr g \<Rightarrow>
       js_gridCoord (js_nodes g ! js_from (js_edges g ! 1)) = Some (Num 0, Num 0) \<and>
       js_gridCoord (js_nodes g ! js_to (js_edges g ! 1)) = Some (Num 4, Num 4) \<and>
       js_from (js_edges g ! 1) \<noteq> js_to (js_edges g ! 1) \<and>
       js_getPath (Num 1, Num 2) (Num 4, Num 5) (isFreeInGrid g) =
         Some (Inr [(Num 1, Num 2), (Num 1, Num 3), (Num 1, Num 4), (Num 1, Num 5),
                    (Num 2, Num 5), (Num 3, Num 5), (Num 4, Num 5)]) \<and>
       js_getPath (Num 2, Num 1) (Num 5, Num 4) (isFreeInGrid g) =
         Some (Inr [(Num 2, Num 1), (Num 3, Num 1), (Num 3, Num 2), (Num 3, Num 3),
                    (Num 4, Num 3), (Num 5, Num 3), (Num 5, Num 4)])"
  by code_simp

text \<open>
  Claim C1, as far as the source keeps it. The direction pairs are always found, and no
  error ever leaves \<open>determinePath\<close>. When both candidates find a path, the edge keeps the
  one with fewer points after simplification, the preferred one on a tie, with the
  directions of that candidate. When the preferred candidate fails, the edge is left with
  the directions of the alternative candidate and an empty path: the alternative candidate
  is not tried and the failure is not passed on.
\<close>

theorem determinePath_keeps_shorter:
  assumes fc: "js_gridCoord (js_nodes g ! js_from e) = Some fromCoord"
    and tc: "js_gridCoord (js_nodes g ! js_to e) = Some toCoord"
  shows "\<exists>pd pod ad aod.
     determineStartAndEndDir graphDirection fromCoord toCoord (js_from e = js_to e)
       = Inr (pd, pod, ad, aod) \<and>
     (\<forall>p a. js_getPath (js_direction fromCoord pd) (js_direction toCoord pod) (isFreeInGrid g)
          = Some (Inr p) \<and>
        js_getPath (js_direction fromCoord ad) (js_direction toCoord aod) (isFreeInGrid g)
          = Some (Inr a) \<longrightarrow>
        determinePath graphDirection g e =
          Some (Inr (if length (js_mergePath p) \<le> length (js_mergePath a)
                     then e\<lparr>js_startDir := Some pd, js_endDir := Some pod, js_path := js_mergePath p\<rparr>
                     else e\<lparr>js_startDir := Some ad, js_endDir := Some aod, js_path := js_mergePath a\<rparr>))) \<and>
     (\<forall>err. js_getPath (js_direction fromCoord pd) (js_direction toCoord pod) (isFreeInGrid g)
          = Some (Inl err) \<longrightarrow>
        determinePath graphDirection g e =
          Some (Inr (e\<lparr>js_startDir := Some ad, js_endDir := Some aod, js_path := []\<rparr>))) \<and>
     (\<forall>err. determinePath graphDirection g e \<noteq> Some (Inl err))"
proof -
  obtain pd pod ad aod where
    d: "determineStartAndEndDir graphDirection fromCoord toCoord (js_from e = js_to e)
       = Inr (pd, pod, ad, aod)"
    using determineStartAndEndDir_no_error by blast
  have "\<forall>p a. js_getPath (js_direction fromCoord pd) (js_direction toCoord pod) (isFreeInGrid g)
          = Some (Inr p) \<and>
        js_getPath (js_direction fromCoord ad) (js_direction toCoord aod) (isFreeInGrid g)
          = Some (Inr a) \<longrightarrow>
        determinePath graphDirection g e =
          Some (Inr (if length (js_mergePath p) \<le> length (js_mergePath a)
                     then e\<lparr>js_startDir := Some pd, js_endDir := Some pod, js_path := js_mergePath p\<rparr>
                     else e\<lparr>js_startDir := Some ad, js_endDir := Some aod, js_path := js_mergePath a\<rparr>))"
    using fc tc d by (simp add: determinePath_def Let_def)
  moreover have "\<forall>err. js_getPath (js_direction fromCoord pd) (js_direction toCoord pod) (isFreeInGrid g)
          = Some (Inl err) \<longrightarrow>
        determinePath graphDirection g e =
          Some (Inr (e\<lparr>js_startDir := Some ad, js_endDir := Some aod, js_path := []\<rparr>))"
    using fc tc d by (simp add: determinePath_def Let_def)
  moreover have "\<forall>err. determinePath graphDirection g e \<noteq> Some (Inl err)"
    using fc tc d by (simp add: determinePath_def Let_def split: option.splits sum.splits)
  ultimately show ?thesis using d by blast
qed

theorem determinePath_keeps_shorter_witness:
  "(\<exists>g. js_placement LR js_fork = Inr g \<and>
      js_gridCoord (js_nodes g ! js_from (js_edges g ! 1)) = Some (Num 0, Num 0) \<and>
      js_gridCoord (js_nodes g ! js_to (js_edges g ! 1)) = Some (Num 4, Num 4) \<and>
      js_getPath (Num 1, Num 2) (Num 4, Num 5) (isFreeInGrid g) =
        Some (Inr [(Num 1, Num 2), (Num 1, Num 3), (Num 1, Num 4), (Num 1, Num 5),
                   (Num 2, Num 5), (Num 3, Num 5), (Num 4, Num 5)]) \<and>
      js_getPath (Num 2, Num 1) (Num 5, Num 4) (isFreeInGrid g) =
        Some (Inr [(Num 2, Num 1), (Num 3, Num 1), (Num 3, Num 2), (Num 3, Num 3),
                   (Num 4, Num 3), (Num 5, Num 3), (Num 5, Num 4)]) \<and>
      determinePath LR g (js_edges g ! 1) =
        Some (Inr ((js_edges g ! 1)\<lparr>js_startDir := Some Down, js_endDir := Some Left,
                     js_path := [(Num 1, Num 2), (Num 1, Num 5), (Num 4, Num 5)]\<rparr>))) \<and>
   (\<exists>g. js_placement LR (js_chain 26) = Inr g \<and>
      js_gridCoord (js_nodes g ! js_from (js_edges g ! 24)) = Some (Num 96, Num 0) \<and>
      js_gridCoord (js_nodes g ! js_to (js_edges g ! 24)) = Some (Num 100, Undef) \<and>
      js_getPath (Num 97, Num 0) (Num 100, NaN) (isFreeInGrid g) = Some (Inl NoPathFound) \<and>
      determinePath LR g (js_edges g ! 24) =
        Some (Inr ((js_edges g ! 24)\<lparr>js_startDir := Some Right, js_endDir := Some Down,
                     js_path := []\<rparr>)))"
proof (intro conjI)
  obtain g where g: "js_placement LR js_fork = Inr g"
    and fc: "js_gridCoord (js_nodes g ! js_from (js_edges g ! 1)) = Some (Num 0, Num 0)"
    and tc: "js_gridCoord (js_nodes g ! js_to (js_edges g ! 1)) = Some (Num 4, Num 4)"
    and ne: "js_from (js_edges g ! 1) \<noteq> js_to (js_edges g ! 1)"
    and p: "js_getPath (Num 1, Num 2) (Num 4, Num 5) (isFreeInGrid g) =
        Some (Inr [(Num 1, Num 2), (Num 1, Num 3), (Num 1, Num 4), (Num 1, Num 5),
                   (Num 2, Num 5), (Num 3, Num 5), (Num 4, Num 5)])"
    and a: "js_getPath (Num 2, Num 1) (Num 5, Num 4) (isFreeInGrid g) =
        Some (Inr [(Num 2, Num 1), (Num 3, Num 1), (Num 3, Num 2), (Num 3, Num 3),
                   (Num 4, Num 3), (Num 5, Num 3), (Num 5, Num 4)])"
    using fork_layout by (auto split: sum.splits)
  have dirs: "determineStartAndEndDir LR (Num 0, Num 0) (Num 4, Num 4) False
      = Inr (Down, Left, Right, Up)"
    by code_simp
  have cells: "js_direction (Num 0, Num 0) Down = (Num 1, Num 2)"
    "js_direction (Num 4, Num 4) Left = (Num 4, Num 5)"
    "js_direction (Num 0, Num 0) Right = (Num 2, Num 1)"
    "js_direction (Num 4, Num 4) Up = (Num 5, Num 4)"
    by (simp_all add: js_direction_def js_add_def Direction_defs)
  have mp: "js_mergePath [(Num 1, Num 2), (Num 1, Num 3), (Num 1, Num 4), (Num 1, Num 5),
                   (Num 2, Num 5), (Num 3, Num 5), (Num 4, Num 5)]
      = [(Num 1, Num 2), (Num 1, Num 5), (Num 4, Num 5)]"
    and ma: "js_mergePath [(Num 2, Num 1), (Num 3, Num 1), (Num 3, Num 2), (Num 3, Num 3),
                   (Num 4, Num 3), (Num 5, Num 3), (Num 5, Num 4)]
      = [(Num 2, Num 1), (Num 3, Num 1), (Num 3, Num 3), (Num 5, Num 3), (Num 5, Num 4)]"
    by code_simp+
  obtain pd pod ad aod where
    d: "determineStartAndEndDir LR (Num 0, Num 0) (Num 4, Num 4)
          (js_from (js_edges g ! 1) = js_to (js_edges g ! 1)) = Inr (pd, pod, ad, aod)"
    and both: "\<And>p a. js_getPath (js_direction (Num 0, Num 0) pd) (js_direction (Num 4, Num 4) pod)
          (isFreeInGrid g) = Some (Inr p) \<Longrightarrow>
        js_getPath (js_direction (Num 0, Num 0) ad) (js_direction (Num 4, Num 4) aod)
          (isFreeInGrid g) = Some (Inr a) \<Longrightarrow>
        determinePath LR g (js_edges g ! 1) =
          Some (Inr (if length (js_mergePath p) \<le> length (js_mergePath a)
                     then (js_edges g ! 1)\<lparr>js_startDir := Some pd, js_endDir := Some pod,
                            js_path := js_mergePath p\<rparr>
                     else (js_edges g ! 1)\<lparr>js_startDir := Some ad, js_endDir := Some aod,
                            js_path := js_mergePath a\<rparr>))"
    using determinePath_keeps_shorter [OF fc tc, of LR] by blast
  have eq: "pd = Down" "pod = Left" "ad = Right" "aod = Up" using d ne dirs by simp_all
  have "determinePath LR g (js_edges g ! 1) =
        Some (Inr ((js_edges g ! 1)\<lparr>js_startDir := Some Down, js_endDir := Some Left,
                     js_path := [(Num 1, Num 2), (Num 1, Num 5), (Num 4, Num 5)]\<rparr>))"
    using both [unfolded eq cells, OF p a] by (simp add: mp ma)
  then show "\<exists>g. js_placement LR js_fork = Inr g \<and>
      js_gridCoord (js_nodes g ! js_from (js_edges g ! 1)) = Some (Num 0, Num 0) \<and>
      js_gridCoord (js_nodes g ! js_to (js_edges g ! 1)) = Some (Num 4, Num 4) \<and>
      js_getPath (Num 1, Num 2) (Num 4, Num 5) (isFreeInGrid g) =
        Some (Inr [(Num 1, Num 2), (Num 1, Num 3), (Num 1, Num 4), (Num 1, Num 5),
                   (Num 2, Num 5), (Num 3, Num 5), (Num 4, Num 5)]) \<and>
      js_getPath (Num 2, Num 1) (Num 5, Num 4) (isFreeInGrid g) =
        Some (Inr [(Num 2, Num 1), (Num 3, Num 1), (Num 3, Num 2), (Num 3, Num 3),
                   (Num 4, Num 3), (Num 5, Num 3), (Num 5, Num 4)]) \<and>
      determinePath LR g (js_edges g ! 1) =
        Some (Inr ((js_edges g ! 1)\<lparr>js_startDir := Some Down, js_endDir := Some Left,
                     js_path := [(Num 1, Num 2), (Num 1, Num 5), (Num 4, Num 5)]\<rparr>))"
    using g fc tc p a by blast
next
  obtain g where g: "js_placement LR (js_chain 26) = Inr g"
    and fc: "js_gridCoord (js_nodes g ! js_from (js_edges g ! 24)) = Some (Num 96, Num 0)"
    and tc: "js_gridCoord (js_nodes g ! js_to (js_edges g ! 24)) = Some (Num 100, Undef)"
    and ne: "js_from (js_edges g ! 24) \<noteq> js_to (js_edges g ! 24)"
    and p: "js_getPath (Num 97, Num 0) (Num 100, NaN) (isFreeInGrid g) = Some (Inl NoPathFound)"
    using chain_beyond_level_array by (auto split: sum.splits)
  have dirs: "determineStartAndEndDir LR (Num 96, Num 0) (Num 100, Undef) False
      = Inr (Up, Left, Right, Down)"
    by code_simp
  have cells: "js_direction (Num 96, Num 0) Up = (Num 97, Num 0)"
    "js_direction (Num 100, Undef) Left = (Num 100, NaN)"
    by (simp_all add: js_direction_def js_add_def Direction_defs)
  obtain pd pod ad aod where
    d: "determineStartAndEndDir LR (Num 96, Num 0) (Num 100, Undef)
          (js_from (js_edges g ! 24) = js_to (js_edges g ! 24)) = Inr (pd, pod, ad, aod)"
    and failed: "\<And>err. js_getPath (js_direction (Num 96, Num 0) pd)
          (js_direction (Num 100, Undef) pod) (isFreeInGrid g) = Some (Inl err) \<Longrightarrow>
        determinePath LR g (js_edges g ! 24) =
          Some (Inr ((js_edges g ! 24)\<lparr>js_startDir := Some ad, js_endDir := Some aod,
                       js_path := []\<rparr>))"
    using determinePath_keeps_shorter [OF fc tc, of LR] by blast
  have eq: "pd = Up" "pod = Left" "ad = Right" "aod = Down" using d ne dirs by simp_all
  have "determinePath LR g (js_edges g ! 24) =
        Some (Inr ((js_edges g ! 24)\<lparr>js_startDir := Some Right, js_endDir := Some Down,
                     js_path := []\<rparr>))"
    using failed [unfolded eq cells, OF p] .
  then show "\<exists>g. js_placement LR (js_chain 26) = Inr g \<and>
      js_gridCoord (js_nodes g ! js_from (js_edges g ! 24)) = Some (Num 96, Num 0) \<and>
      js_gridCoord (js_nodes g ! js_to (js_edges g ! 24)) = Some (Num 100, Undef) \<and>
      js_getPath (Num 97, Num 0) (Num 100, NaN) (isFreeInGrid g) = Some (Inl NoPathFound) \<and>
      determinePath LR g (js_edges g ! 24) =
        Some (Inr ((js_edges g ! 24)\<lparr>js_startDir := Some Right, js_endDir := Some Down,
                     js_path := []\<rparr>))"
    using g fc tc p by blast
qed

text \<open>
  When the preferred candidate finds a path and the alternative candidate fails, the edge
  keeps the preferred path.
\<close>

lemma determinePath_alternative_failure:
  assumes "js_gridCoord (js_nodes g ! js_from e) = Some fromCoord"
    and "js_gridCoord (js_nodes g ! js_to e) = Some toCoord"
    and "determineStartAndEndDir graphDirection fromCoord toCoord (js_from e = js_to e)
       = Inr (pd, pod, ad, aod)"
    and "js_getPath (js_direction fromCoord pd) (js_direction toCoord pod) (isFreeInGrid g)
       = Some (Inr p)"
    and "js_getPath (js_direction fromCoord ad) (js_direction toCoord aod) (isFreeInGrid g)
       = Some (Inl err)"
  shows "determinePath graphDirection g e =
     Some (Inr (e\<lparr>js_startDir := Some pd, js_endDir := Some pod, js_path := js_mergePath p\<rparr>))"
  using assms by (simp add: determinePath_def Let_def)

subsection \<open>The size maps only grow\<close>

text \<open>
  A coordinate that placement assigns is a multiple of four when it is an integer. A
  write grows when it finds no value or a value that is at most the one it writes;
  \<open>log_ok\<close>: every write recorded so far grows. \<open>padding_inv\<close>: the columns and rows
  before an anchor (those with an integer index of the form \<open>4 * i + 3\<close>) hold at most the
  padding, so that writing the padding there does not shrink them.
\<close>

definition aligned :: "number \<Rightarrow> bool" where
  "aligned v = (case v of Num i \<Rightarrow> i mod 4 = 0 | NaN \<Rightarrow> True | Undef \<Rightarrow> True)"

definition anchors_inv :: "JsGraph \<Rightarrow> bool" where
  "anchors_inv g =
     (\<forall>n \<in> set (js_nodes g). \<forall>c. js_gridCoord n = Some c \<longrightarrow> aligned (fst c) \<and> aligned (snd c))"

definition levels_ok :: "levels \<Rightarrow> bool" where
  "levels_ok h = (\<forall>k. aligned (h k))"

definition same_sizes :: "JsGraph \<Rightarrow> JsGraph \<Rightarrow> bool" where
  "same_sizes g g' =
     (js_columnWidth g' = js_columnWidth g \<and> js_rowHeight g' = js_rowHeight g \<and>
      js_writes g' = js_writes g \<and> length (js_nodes g') = length (js_nodes g))"

definition grows :: "js_write \<Rightarrow> bool" where
  "grows w = (case w of (ax, k, previous, written) \<Rightarrow>
     (case previous of None \<Rightarrow> True | Some v \<Rightarrow> v \<le> written))"

definition log_ok :: "JsGraph \<Rightarrow> bool" where
  "log_ok g = (\<forall>w \<in> set (js_writes g). grows w)"

definition padding_inv :: "JsGraph \<Rightarrow> bool" where
  "padding_inv g =
     ((\<forall>i v. map_of (js_columnWidth g) (Num i) = Some v \<longrightarrow> i mod 4 = 3 \<longrightarrow> v \<le> PADDING_BETWEEN_X) \<and>
      (\<forall>i v. map_of (js_rowHeight g) (Num i) = Some v \<longrightarrow> i mod 4 = 3 \<longrightarrow> v \<le> PADDING_BETWEEN_Y))"

text \<open>The graph before layout: no positions, empty size maps, nothing written.\<close>

definition fresh :: "JsGraph \<Rightarrow> bool" where
  "fresh g =
     ((\<forall>n \<in> set (js_nodes g). js_gridCoord n = None) \<and>
      js_columnWidth g = [] \<and> js_rowHeight g = [] \<and> js_writes g = [])"

lemma aligned_simps [simp]:
  "aligned (Num i) = (i mod 4 = 0)" "aligned NaN" "aligned Undef"
  by (simp_all add: aligned_def)

lemma aligned_add4: "aligned v \<Longrightarrow> aligned (js_add v 4)"
  by (cases v) (simp_all add: js_add_def)

lemma aligned_moved:
  "aligned (fst c) \<and> aligned (snd c) \<Longrightarrow>
   aligned (fst (js_moved d c)) \<and> aligned (snd (js_moved d c))"
  by (simp add: js_moved_def aligned_add4)

lemma same_sizes_refl [simp]: "same_sizes g g"
  by (simp add: same_sizes_def)

lemma same_sizes_trans: "same_sizes g g' \<Longrightarrow> same_sizes g' g'' \<Longrightarrow> same_sizes g g''"
  by (simp add: same_sizes_def)

lemma js_reserveSpotInGrid_ok:
  "anchors_inv g \<Longrightarrow> aligned (fst c) \<and> aligned (snd c) \<Longrightarrow>
   js_reserveSpotInGrid d g i c = Inr (g', c') \<Longrightarrow>
   anchors_inv g' \<and> same_sizes g g'"
proof (induction d g i c rule: js_reserveSpotInGrid.induct)
  case (1 d g i c)
  show ?case
  proof (cases "map_of (js_grid g) c \<noteq> None")
    case True
    show ?thesis
    proof (cases "js_moved d c = c")
      case same: True
      then have "js_reserveSpotInGrid d g i c = Inl JsRangeError"
        using True by (subst js_reserveSpotInGrid.simps) simp
      then show ?thesis using "1.prems"(3) by simp
    next
      case False
      have run: "js_reserveSpotInGrid d g i (js_moved d c) = Inr (g', c')"
        using "1.prems"(3) True False by (subst (asm) js_reserveSpotInGrid.simps) simp
      have al: "aligned (fst (js_moved d c)) \<and> aligned (snd (js_moved d c))"
        using "1.prems"(2) by (rule aligned_moved)
      show ?thesis using "1.prems"(1) al run by (rule "1.IH" [OF True False])
    qed
  next
    case False
    then have free: "map_of (js_grid g) c = None" by simp
    show ?thesis
    proof (cases "i < length (js_nodes g)")
      case True
      have g': "g' = g\<lparr>js_grid := foldl (\<lambda>gr k. AList.update k i gr) (js_grid g) (js_reserved c),
                    js_nodes := (js_nodes g)[i := (js_nodes g ! i)\<lparr>js_gridCoord := Some c\<rparr>]\<rparr>"
        using "1.prems"(3) free True by (subst (asm) js_reserveSpotInGrid.simps) auto
      have "anchors_inv g'"
        unfolding anchors_inv_def
      proof (intro ballI allI impI)
        fix n c0 assume n: "n \<in> set (js_nodes g')" and c0: "js_gridCoord n = Some c0"
        have "n \<in> insert ((js_nodes g ! i)\<lparr>js_gridCoord := Some c\<rparr>) (set (js_nodes g))"
          using n set_update_subset_insert [of "js_nodes g" i] by (auto simp add: g')
        then show "aligned (fst c0) \<and> aligned (snd c0)"
        proof
          assume "n = (js_nodes g ! i)\<lparr>js_gridCoord := Some c\<rparr>"
          then have "c0 = c" using c0 by simp
          then show ?thesis using "1.prems"(2) by simp
        next
          assume "n \<in> set (js_nodes g)"
          then show ?thesis using "1.prems"(1) c0 unfolding anchors_inv_def by blast
        qed
      qed
      moreover have "same_sizes g g'" by (simp add: same_sizes_def g')
      ultimately show ?thesis by simp
    next
      case False
      then have "js_reserveSpotInGrid d g i c = Inl JsTypeError"
        using free by (subst js_reserveSpotInGrid.simps) simp
      then show ?thesis using "1.prems"(3) by simp
    qed
  qed
qed

lemma levels_ok_update: "levels_ok h \<Longrightarrow> aligned v \<Longrightarrow> levels_ok (h(k := v))"
  by (simp add: levels_ok_def)

lemma levels_okD: "levels_ok h \<Longrightarrow> aligned (h k)"
  by (simp add: levels_ok_def)

lemma new_levels_ok: "levels_ok new_levels"
  by (simp add: levels_ok_def new_levels_def split: number.splits)

lemma js_place_roots_ok:
  "anchors_inv g \<Longrightarrow> levels_ok h \<Longrightarrow> js_place_roots d rs (g, h) = Inr (g', h') \<Longrightarrow>
   anchors_inv g' \<and> same_sizes g g' \<and> levels_ok h'"
proof (induction rs arbitrary: g h)
  case Nil
  then show ?case by simp
next
  case (Cons r rs)
  let ?c = "if d = LR then (Num 0, h (Num 0)) else (h (Num 0), Num 0)"
  obtain g1 c1 where res: "js_reserveSpotInGrid d g (js_index (js_nodes g ! r)) ?c = Inr (g1, c1)"
    and rest: "js_place_roots d rs (g1, h(Num 0 := js_add (h (Num 0)) 4)) = Inr (g', h')"
    using Cons.prems(3) by (auto split: sum.splits)
  have al: "aligned (fst ?c) \<and> aligned (snd ?c)" using levels_okD [OF Cons.prems(2)] by simp
  have 1: "anchors_inv g1 \<and> same_sizes g g1"
    using Cons.prems(1) al res by (rule js_reserveSpotInGrid_ok)
  have lv: "levels_ok (h(Num 0 := js_add (h (Num 0)) 4))"
    using Cons.prems(2) by (intro levels_ok_update aligned_add4 levels_okD)
  have a1: "anchors_inv g1" using 1 by simp
  have "anchors_inv g' \<and> same_sizes g1 g' \<and> levels_ok h'"
    using a1 lv rest by (rule Cons.IH)
  then show ?case using 1 same_sizes_trans by blast
qed

lemma js_place_children_ok:
  "anchors_inv g \<Longrightarrow> levels_ok h \<Longrightarrow> aligned childLevel \<Longrightarrow> aligned highestPosition \<Longrightarrow>
   js_place_children d childLevel highestPosition cs (g, h) = Inr (g', h') \<Longrightarrow>
   anchors_inv g' \<and> same_sizes g g' \<and> levels_ok h'"
proof (induction cs arbitrary: g h)
  case Nil
  then show ?case by simp
next
  case (Cons c cs)
  show ?case
  proof (cases "js_gridCoord (js_nodes g ! c)")
    case (Some placed)
    then have "js_place_children d childLevel highestPosition cs (g, h) = Inr (g', h')"
      using Cons.prems(5) by simp
    then show ?thesis using Cons.prems(1-4) by (intro Cons.IH) simp_all
  next
    case None
    let ?c = "if d = LR then (childLevel, highestPosition) else (highestPosition, childLevel)"
    obtain g1 c1 where res: "js_reserveSpotInGrid d g (js_index (js_nodes g ! c)) ?c = Inr (g1, c1)"
      and rest: "js_place_children d childLevel highestPosition cs
          (g1, h(childLevel := js_add highestPosition 4)) = Inr (g', h')"
      using Cons.prems(5) None by (auto split: sum.splits)
    have al: "aligned (fst ?c) \<and> aligned (snd ?c)" using Cons.prems(3,4) by simp
    have 1: "anchors_inv g1 \<and> same_sizes g g1"
      using Cons.prems(1) al res by (rule js_reserveSpotInGrid_ok)
    have lv: "levels_ok (h(childLevel := js_add highestPosition 4))"
      using Cons.prems(2,4) by (intro levels_ok_update aligned_add4)
    have a1: "anchors_inv g1" using 1 by simp
    have "anchors_inv g' \<and> same_sizes g1 g' \<and> levels_ok h'"
      using a1 lv Cons.prems(3,4) rest by (rule Cons.IH)
    then show ?thesis using 1 same_sizes_trans by blast
  qed
qed

lemma js_place_levels_ok:
  "anchors_inv g \<Longrightarrow> levels_ok h \<Longrightarrow> (\<forall>p \<in> set ps. p < length (js_nodes g)) \<Longrightarrow>
   js_place_levels d ps (g, h) = Inr (g', h') \<Longrightarrow>
   anchors_inv g' \<and> same_sizes g g' \<and> levels_ok h'"
proof (induction ps arbitrary: g h)
  case Nil
  then show ?case by simp
next
  case (Cons p ps)
  have p: "p < length (js_nodes g)" using Cons.prems(3) by simp
  show ?case
  proof (cases "js_gridCoord (js_nodes g ! p)")
    case None
    then have "js_place_levels d ps (g, h) = Inr (g', h')" using Cons.prems(4) by simp
    then show ?thesis using Cons.prems(1-3) by (intro Cons.IH) simp_all
  next
    case (Some c)
    define childLevel where "childLevel = (if d = LR then js_add (fst c) 4 else js_add (snd c) 4)"
    have "js_nodes g ! p \<in> set (js_nodes g)" using p by simp
    then have c: "aligned (fst c)" "aligned (snd c)"
      using Cons.prems(1) Some unfolding anchors_inv_def by blast+
    have lm: "aligned childLevel" using c by (simp add: childLevel_def aligned_add4)
    have hp: "aligned (h childLevel)" using Cons.prems(2) by (rule levels_okD)
    obtain g1 h1 where st: "js_place_children d childLevel (h childLevel)
        (js_getChildren g (js_nodes g ! p)) (g, h) = Inr (g1, h1)"
      and rest: "js_place_levels d ps (g1, h1) = Inr (g', h')"
      using Cons.prems(4) Some
      by (auto simp add: Let_def childLevel_def split: sum.splits)
    have 1: "anchors_inv g1 \<and> same_sizes g g1 \<and> levels_ok h1"
      using Cons.prems(1,2) lm hp st by (rule js_place_children_ok)
    then have a1: "anchors_inv g1" and l1: "levels_ok h1"
      and len: "length (js_nodes g1) = length (js_nodes g)"
      by (simp_all add: same_sizes_def)
    have ps: "\<forall>p \<in> set ps. p < length (js_nodes g1)" using Cons.prems(3) len by simp
    have "anchors_inv g' \<and> same_sizes g1 g' \<and> levels_ok h'"
      using a1 l1 ps rest by (rule Cons.IH)
    then show ?thesis using 1 same_sizes_trans by blast
  qed
qed

lemma js_placement_ok:
  assumes fr: "fresh g" and run: "js_placement d g = Inr g'"
  shows "anchors_inv g' \<and> same_sizes g g'"
proof -
  obtain g1 h1 where roots: "js_place_roots d (js_find_roots g) (g, new_levels) = Inr (g1, h1)"
    using run by (auto simp add: js_placement_def split: sum.splits)
  then obtain h2 where levels: "js_place_levels d [0..<length (js_nodes g)] (g1, h1) = Inr (g', h2)"
    using run by (auto simp add: js_placement_def split: sum.splits)
  have a0: "anchors_inv g" using fr by (simp add: anchors_inv_def fresh_def)
  have 1: "anchors_inv g1 \<and> same_sizes g g1 \<and> levels_ok h1"
    using a0 new_levels_ok roots by (rule js_place_roots_ok)
  then have a1: "anchors_inv g1" and l1: "levels_ok h1"
    and len: "length (js_nodes g1) = length (js_nodes g)"
    by (simp_all add: same_sizes_def)
  have ps: "\<forall>p \<in> set [0..<length (js_nodes g)]. p < length (js_nodes g1)" using len by simp
  have "anchors_inv g' \<and> same_sizes g1 g' \<and> levels_ok h2"
    using a1 l1 ps levels by (rule js_place_levels_ok)
  then show ?thesis using 1 same_sizes_trans by blast
qed

lemma set_columnWidth_simps [simp]:
  "map_of (js_columnWidth (set_columnWidth k v g)) = (map_of (js_columnWidth g))(k \<mapsto> v)"
  "js_rowHeight (set_columnWidth k v g) = js_rowHeight g"
  "js_writes (set_columnWidth k v g) = js_writes g @ [(Column, k, map_of (js_columnWidth g) k, v)]"
  "js_nodes (set_columnWidth k v g) = js_nodes g" "js_edges (set_columnWidth k v g) = js_edges g"
  by (simp_all add: set_columnWidth_def update_conv')

lemma set_rowHeight_simps [simp]:
  "map_of (js_rowHeight (set_rowHeight k v g)) = (map_of (js_rowHeight g))(k \<mapsto> v)"
  "js_columnWidth (set_rowHeight k v g) = js_columnWidth g"
  "js_writes (set_rowHeight k v g) = js_writes g @ [(Row, k, map_of (js_rowHeight g) k, v)]"
  "js_nodes (set_rowHeight k v g) = js_nodes g" "js_edges (set_rowHeight k v g) = js_edges g"
  by (simp_all add: set_rowHeight_def update_conv')

lemma set_columnWidth_log:
  "log_ok g \<Longrightarrow> (\<And>old. map_of (js_columnWidth g) k = Some old \<Longrightarrow> old \<le> v) \<Longrightarrow>
   log_ok (set_columnWidth k v g)"
  by (auto simp add: log_ok_def grows_def split: option.splits)

lemma set_rowHeight_log:
  "log_ok g \<Longrightarrow> (\<And>old. map_of (js_rowHeight g) k = Some old \<Longrightarrow> old \<le> v) \<Longrightarrow>
   log_ok (set_rowHeight k v g)"
  by (auto simp add: log_ok_def grows_def split: option.splits)

text \<open>A key is a lane when it is an integer of the form \<open>4 * i + 3\<close>.\<close>

definition lane :: "number \<Rightarrow> bool" where
  "lane k = (case k of Num i \<Rightarrow> i mod 4 = 3 | NaN \<Rightarrow> False | Undef \<Rightarrow> False)"

lemma column_max_step:
  assumes "log_ok g \<and> padding_inv g" "\<not> lane k"
  shows "log_ok (set_columnWidth k (max (get_or_zero (js_columnWidth g) k) col) g) \<and>
         padding_inv (set_columnWidth k (max (get_or_zero (js_columnWidth g) k) col) g)"
proof
  show "log_ok (set_columnWidth k (max (get_or_zero (js_columnWidth g) k) col) g)"
    using assms(1) by (intro set_columnWidth_log) (simp_all add: get_or_zero_def)
  show "padding_inv (set_columnWidth k (max (get_or_zero (js_columnWidth g) k) col) g)"
    using assms unfolding padding_inv_def lane_def by (auto split: number.splits)
qed

lemma row_max_step:
  assumes "log_ok g \<and> padding_inv g" "\<not> lane k"
  shows "log_ok (set_rowHeight k (max (get_or_zero (js_rowHeight g) k) row) g) \<and>
         padding_inv (set_rowHeight k (max (get_or_zero (js_rowHeight g) k) row) g)"
proof
  show "log_ok (set_rowHeight k (max (get_or_zero (js_rowHeight g) k) row) g)"
    using assms(1) by (intro set_rowHeight_log) (simp_all add: get_or_zero_def)
  show "padding_inv (set_rowHeight k (max (get_or_zero (js_rowHeight g) k) row) g)"
    using assms unfolding padding_inv_def lane_def by (auto split: number.splits)
qed

lemma column_padding_step:
  assumes "log_ok g \<and> padding_inv g" "i mod 4 = 3"
  shows "log_ok (set_columnWidth (Num i) PADDING_BETWEEN_X g) \<and>
         padding_inv (set_columnWidth (Num i) PADDING_BETWEEN_X g)"
proof
  show "log_ok (set_columnWidth (Num i) PADDING_BETWEEN_X g)"
    using assms by (intro set_columnWidth_log) (simp_all add: padding_inv_def)
  show "padding_inv (set_columnWidth (Num i) PADDING_BETWEEN_X g)"
    using assms unfolding padding_inv_def by simp
qed

lemma row_padding_step:
  assumes "log_ok g \<and> padding_inv g" "i mod 4 = 3"
  shows "log_ok (set_rowHeight (Num i) PADDING_BETWEEN_Y g) \<and>
         padding_inv (set_rowHeight (Num i) PADDING_BETWEEN_Y g)"
proof
  show "log_ok (set_rowHeight (Num i) PADDING_BETWEEN_Y g)"
    using assms by (intro set_rowHeight_log) (simp_all add: padding_inv_def)
  show "padding_inv (set_rowHeight (Num i) PADDING_BETWEEN_Y g)"
    using assms unfolding padding_inv_def by simp
qed

lemma multiple_of_four_offsets:
  "(x::int) mod 4 = 0 \<Longrightarrow> (x + 0) mod 4 \<noteq> 3 \<and> (x + 1) mod 4 \<noteq> 3 \<and> (x + 2) mod 4 \<noteq> 3 \<and>
     (x - 1) mod 4 = 3"
  by presburger

lemma aligned_offset_no_lane:
  assumes "aligned x" "idx = 0 \<or> idx = 1 \<or> idx = 2"
  shows "\<not> lane (js_add x idx)"
proof (cases x)
  case (Num i)
  then have "i mod 4 = 0" using assms(1) by simp
  then show ?thesis using multiple_of_four_offsets [of i] assms(2) Num
    by (auto simp add: lane_def js_add_def)
qed (simp_all add: lane_def js_add_def)

lemma place_column_fold:
  "log_ok g \<and> padding_inv g \<Longrightarrow> aligned x \<Longrightarrow> (\<forall>ic \<in> set ics. fst ic \<in> {0, 1, 2}) \<Longrightarrow>
   log_ok (foldl (place_column x) g ics) \<and> padding_inv (foldl (place_column x) g ics)"
proof (induction ics arbitrary: g)
  case Nil
  then show ?case by simp
next
  case (Cons ic ics)
  have "fst ic = 0 \<or> fst ic = 1 \<or> fst ic = 2" using Cons.prems(3) by simp
  then have "\<not> lane (js_add x (fst ic))" using Cons.prems(2) by (intro aligned_offset_no_lane)
  then have "log_ok (place_column x g ic) \<and> padding_inv (place_column x g ic)"
    unfolding place_column_def Let_def using Cons.prems(1) by (intro column_max_step)
  then show ?case using Cons.prems(2,3) by (simp add: Cons.IH)
qed

lemma place_row_fold:
  "log_ok g \<and> padding_inv g \<Longrightarrow> aligned y \<Longrightarrow> (\<forall>ir \<in> set irs. fst ir \<in> {0, 1, 2}) \<Longrightarrow>
   log_ok (foldl (place_row y) g irs) \<and> padding_inv (foldl (place_row y) g irs)"
proof (induction irs arbitrary: g)
  case Nil
  then show ?case by simp
next
  case (Cons ir irs)
  have "fst ir = 0 \<or> fst ir = 1 \<or> fst ir = 2" using Cons.prems(3) by simp
  then have "\<not> lane (js_add y (fst ir))" using Cons.prems(2) by (intro aligned_offset_no_lane)
  then have "log_ok (place_row y g ir) \<and> padding_inv (place_row y g ir)"
    unfolding place_row_def Let_def using Cons.prems(1) by (intro row_max_step)
  then show ?case using Cons.prems(2,3) by (simp add: Cons.IH)
qed

lemma positive_aligned_before:
  assumes "js_positive v" "aligned v"
  obtains i where "js_add v (- 1) = Num i" "i mod 4 = 3"
proof (cases v)
  case (Num j)
  then have "j mod 4 = 0" using assms(2) by simp
  then have "(j - 1) mod 4 = 3" using multiple_of_four_offsets [of j] by simp
  then show ?thesis using that [of "j - 1"] Num by (simp add: js_add_def)
qed (use assms(1) in \<open>simp_all add: js_positive_def\<close>)

lemma padding_before_ok:
  assumes Q: "log_ok g \<and> padding_inv g" and c: "aligned (fst c)" "aligned (snd c)"
  shows "log_ok (padding_before c g) \<and> padding_inv (padding_before c g)"
proof -
  define g1 where "g1 = (if js_positive (fst c)
      then set_columnWidth (js_add (fst c) (- 1)) PADDING_BETWEEN_X g else g)"
  have 1: "log_ok g1 \<and> padding_inv g1"
  proof (cases "js_positive (fst c)")
    case True
    then obtain i where "js_add (fst c) (- 1) = Num i" "i mod 4 = 3"
      using c(1) by (rule positive_aligned_before)
    then show ?thesis using column_padding_step [OF Q, of i] True by (simp add: g1_def)
  next
    case False
    then show ?thesis using Q by (simp add: g1_def)
  qed
  have eq: "padding_before c g =
      (if js_positive (snd c) then set_rowHeight (js_add (snd c) (- 1)) PADDING_BETWEEN_Y g1 else g1)"
    by (simp add: padding_before_def g1_def Let_def)
  show ?thesis
  proof (cases "js_positive (snd c)")
    case True
    then obtain i where "js_add (snd c) (- 1) = Num i" "i mod 4 = 3"
      using c(2) by (rule positive_aligned_before)
    then show ?thesis using row_padding_step [OF 1, of i] True by (simp add: eq)
  next
    case False
    then show ?thesis using 1 by (simp add: eq)
  qed
qed

lemma setColumnWidth_ok:
  assumes Q: "log_ok g \<and> padding_inv g"
    and c: "js_gridCoord n = Some c" "aligned (fst c)" "aligned (snd c)"
  shows "log_ok (setColumnWidth g n) \<and> padding_inv (setColumnWidth g n)"
proof -
  define w where "w = 2 * BOX_BORDER_PADDING + int (length (js_name n))"
  define h where "h = 1 + 2 * BOX_BORDER_PADDING"
  define g1 where "g1 = foldl (place_column (fst c)) g (zip [0, 1, 2] [1, w, 1])"
  define g2 where "g2 = foldl (place_row (snd c)) g1 (zip [0, 1, 2] [1, h, 1])"
  have eq: "setColumnWidth g n = padding_before c g2"
    unfolding setColumnWidth_def g2_def g1_def w_def h_def using c(1) by (simp add: Let_def)
  have 1: "log_ok g1 \<and> padding_inv g1"
    unfolding g1_def using Q c(2) by (rule place_column_fold) simp
  have 2: "log_ok g2 \<and> padding_inv g2"
    unfolding g2_def using 1 c(3) by (rule place_row_fold) simp
  show ?thesis unfolding eq using 2 c(2,3) by (rule padding_before_ok)
qed

lemma setColumnWidth_unplaced: "js_gridCoord n = None \<Longrightarrow> setColumnWidth g n = g"
  by (simp add: setColumnWidth_def)

lemma sizing_ok:
  "log_ok g \<and> padding_inv g \<Longrightarrow>
   (\<forall>n \<in> set ns. \<forall>c. js_gridCoord n = Some c \<longrightarrow> aligned (fst c) \<and> aligned (snd c)) \<Longrightarrow>
   log_ok (foldl setColumnWidth g ns) \<and> padding_inv (foldl setColumnWidth g ns)"
proof (induction ns arbitrary: g)
  case Nil
  then show ?case by simp
next
  case (Cons n ns)
  have "log_ok (setColumnWidth g n) \<and> padding_inv (setColumnWidth g n)"
  proof (cases "js_gridCoord n")
    case None
    then show ?thesis using Cons.prems(1) by (simp add: setColumnWidth_unplaced)
  next
    case (Some c)
    have "aligned (fst c) \<and> aligned (snd c)" using Cons.prems(2) Some by (cases c) simp
    then show ?thesis using Cons.prems(1) Some by (intro setColumnWidth_ok [where c = c]) simp_all
  qed
  then show ?case using Cons.prems(2) by (simp add: Cons.IH)
qed

lemma set_columnWidth_absent_log:
  "log_ok g \<Longrightarrow> map_of (js_columnWidth g) k = None \<Longrightarrow> log_ok (set_columnWidth k v g)"
  by (rule set_columnWidth_log) simp_all

lemma set_rowHeight_absent_log:
  "log_ok g \<Longrightarrow> map_of (js_rowHeight g) k = None \<Longrightarrow> log_ok (set_rowHeight k v g)"
  by (rule set_rowHeight_log) simp_all

lemma default_size_log: "log_ok g \<Longrightarrow> log_ok (default_size g c)"
proof -
  assume g: "log_ok g"
  define g1 where "g1 = (if map_of (js_columnWidth g) (fst c) = None
                  then set_columnWidth (fst c) (PADDING_BETWEEN_X div 2) g else g)"
  have 1: "log_ok g1" unfolding g1_def using g by (simp add: set_columnWidth_absent_log)
  have "default_size g c = (if map_of (js_rowHeight g1) (snd c) = None
           then set_rowHeight (snd c) (PADDING_BETWEEN_Y div 2) g1 else g1)"
    by (simp add: default_size_def g1_def Let_def)
  then show ?thesis using 1 by (simp add: set_rowHeight_absent_log)
qed

lemma increaseGridSizeForPath_log:
  "log_ok g \<Longrightarrow> log_ok (increaseGridSizeForPath g cells)"
  unfolding increaseGridSizeForPath_def
  by (induction cells arbitrary: g) (simp_all add: default_size_log)

lemma determineLabelLine_log:
  assumes "log_ok g" "determineLabelLine g e = Inr (g', e')"
  shows "log_ok g'"
proof (cases "length (js_text e) = 0")
  case True
  then show ?thesis using assms by (simp add: determineLabelLine_def)
next
  case False
  then obtain k v where "g' = set_columnWidth k (max (get_or_zero (js_columnWidth g) k) v) g"
    using assms(2) by (auto simp add: determineLabelLine_def Let_def split: list.splits)
  then show ?thesis using assms(1) by (simp add: set_columnWidth_log get_or_zero_def)
qed

lemma log_ok_edges [simp]: "log_ok (g\<lparr>js_edges := es\<rparr>) = log_ok g"
  by (simp add: log_ok_def)

lemma route_edges_log:
  "log_ok g \<Longrightarrow> log_ok (fst (route_edges d js g))"
proof (induction js arbitrary: g)
  case Nil
  then show ?case by simp
next
  case (Cons j js)
  show ?case
  proof (cases "determinePath d g (js_edges g ! j)")
    case None
    then show ?thesis using Cons.prems by simp
  next
    case (Some r)
    then show ?thesis
    proof (cases r)
      case (Inl err)
      then show ?thesis using Some Cons.prems by simp
    next
      case (Inr routed)
      note Some = Some [unfolded Inr]
      define g1 where "g1 = increaseGridSizeForPath (g\<lparr>js_edges := (js_edges g)[j := routed]\<rparr>) (js_path routed)"
      have 1: "log_ok g1" unfolding g1_def using Cons.prems
        by (intro increaseGridSizeForPath_log) simp
      show ?thesis
      proof (cases "determineLabelLine g1 routed")
        case (Inl err)
        then have "route_edges d (j # js) g = (g1, Thrown err)"
          using Some by (simp add: g1_def Let_def)
        then show ?thesis using 1 by simp
      next
        case lab: (Inr pair)
        obtain g2 labelled where pair: "pair = (g2, labelled)" by (cases pair)
        have 2: "log_ok g2" using 1 lab pair determineLabelLine_log by blast
        have "route_edges d (j # js) g =
            route_edges d js (g2\<lparr>js_edges := (js_edges g2)[j := labelled]\<rparr>)"
          using Some lab pair by (simp add: g1_def Let_def)
        then show ?thesis using Cons.IH [of "g2\<lparr>js_edges := (js_edges g2)[j := labelled]\<rparr>"] 2 by simp
      qed
    qed
  qed
qed

lemma createMapping_log:
  assumes fr: "fresh g"
  shows "log_ok (fst (createMapping d g))"
proof (cases "js_placement d g")
  case (Inl err)
  then have "createMapping d g = (g, Thrown err)" by (simp add: createMapping_def)
  then show ?thesis using fr by (simp add: log_ok_def fresh_def)
next
  case (Inr placed)
  have pl: "anchors_inv placed \<and> same_sizes g placed" using fr Inr by (rule js_placement_ok)
  have Q: "log_ok placed \<and> padding_inv placed"
    using pl fr by (simp add: same_sizes_def fresh_def log_ok_def padding_inv_def)
  have anchors: "\<forall>n \<in> set (js_nodes placed). \<forall>c. js_gridCoord n = Some c \<longrightarrow>
      aligned (fst c) \<and> aligned (snd c)"
    using pl unfolding anchors_inv_def by blast
  define sized where "sized = foldl setColumnWidth placed (js_nodes placed)"
  have "log_ok sized \<and> padding_inv sized" unfolding sized_def using Q anchors by (rule sizing_ok)
  then have s: "log_ok sized" by simp
  have "createMapping d g = route_edges d [0..<length (js_edges sized)] sized"
    using Inr by (simp add: createMapping_def sized_def Let_def)
  then show ?thesis using route_edges_log [OF s] by simp
qed

lemma fresh_js_new_graph: "fresh (js_new_graph names links)"
  by (auto simp add: fresh_def js_new_graph_def)

text \<open>
  The writes of the edge loop come after the writes of node sizing: every stage only
  appends to the record of writes.
\<close>

definition extends :: "JsGraph \<Rightarrow> JsGraph \<Rightarrow> bool" where
  "extends g g' = (\<exists>ws. js_writes g' = js_writes g @ ws)"

lemma extends_refl [simp]: "extends g g"
  by (simp add: extends_def)

lemma extends_trans: "extends g g1 \<Longrightarrow> extends g1 g2 \<Longrightarrow> extends g g2"
  by (auto simp add: extends_def)

lemma extends_edges [simp]: "extends g (g'\<lparr>js_edges := es\<rparr>) = extends g g'"
  by (simp add: extends_def)

lemma extends_set_columnWidth: "extends g (set_columnWidth k v g)"
  by (simp add: extends_def)

lemma extends_set_rowHeight: "extends g (set_rowHeight k v g)"
  by (simp add: extends_def)

lemma extends_default_size: "extends g (default_size g c)"
  unfolding default_size_def Let_def
  by (auto intro: extends_trans extends_set_columnWidth extends_set_rowHeight)

lemma extends_increaseGridSizeForPath: "extends g (increaseGridSizeForPath g cells)"
  unfolding increaseGridSizeForPath_def
proof (induction cells arbitrary: g)
  case Nil
  then show ?case by simp
next
  case (Cons c cells)
  show ?case using extends_default_size [of g c] Cons [of "default_size g c"]
    by (auto intro: extends_trans)
qed

lemma extends_determineLabelLine:
  "determineLabelLine g e = Inr (g', e') \<Longrightarrow> extends g g'"
  by (auto simp add: determineLabelLine_def Let_def extends_set_columnWidth
      split: if_splits list.splits)

lemma extends_route_edges: "extends g (fst (route_edges d js g))"
proof (induction js arbitrary: g)
  case Nil
  then show ?case by simp
next
  case (Cons j js)
  show ?case
  proof (cases "determinePath d g (js_edges g ! j)")
    case None
    then show ?thesis by simp
  next
    case (Some r)
    then show ?thesis
    proof (cases r)
      case (Inl err)
      then show ?thesis using Some by simp
    next
      case (Inr routed)
      note Some = Some [unfolded Inr]
      define g1 where "g1 = increaseGridSizeForPath (g\<lparr>js_edges := (js_edges g)[j := routed]\<rparr>) (js_path routed)"
      have 1: "extends g g1"
        using extends_increaseGridSizeForPath [of "g\<lparr>js_edges := (js_edges g)[j := routed]\<rparr>" "js_path routed"]
        by (simp add: g1_def extends_def)
      show ?thesis
      proof (cases "determineLabelLine g1 routed")
        case (Inl err)
        then have "route_edges d (j # js) g = (g1, Thrown err)"
          using Some by (simp add: g1_def Let_def)
        then show ?thesis using 1 by simp
      next
        case lab: (Inr pair)
        obtain g2 labelled where pair: "pair = (g2, labelled)" by (cases pair)
        have 2: "extends g g2" using 1 lab pair extends_determineLabelLine extends_trans by blast
        have "route_edges d (j # js) g =
            route_edges d js (g2\<lparr>js_edges := (js_edges g2)[j := labelled]\<rparr>)"
          using Some lab pair by (simp add: g1_def Let_def)
        then show ?thesis
          using Cons.IH [of "g2\<lparr>js_edges := (js_edges g2)[j := labelled]\<rparr>"] 2
          by (auto simp add: extends_def)
      qed
    qed
  qed
qed

text \<open>
  The chain of 26 nodes, laid out from left to right: its last node is placed at
  \<open>(100, undefined)\<close>, the run goes on, and node sizing writes the row key \<open>NaN\<close> three
  times, each time with a value that is at least the one found. The edge loop only
  appends to the record, so these writes are in the record of the run.
\<close>

lemma createMapping_beyond_level_array:
  "{(Row, NaN, None, 1), (Row, NaN, Some 1, 3), (Row, NaN, Some 3, 3)}
     \<subseteq> set (js_writes (fst (createMapping LR (js_chain 26))))"
proof -
  obtain placed where pl: "js_placement LR (js_chain 26) = Inr placed"
    and w: "drop 174 (js_writes (foldl setColumnWidth placed (js_nodes placed))) =
         [(Column, Num 100, None, 1), (Column, Num 101, None, 3), (Column, Num 102, None, 1),
          (Row, NaN, None, 1), (Row, NaN, Some 1, 3), (Row, NaN, Some 3, 3),
          (Column, Num 99, None, 5)]"
    using chain_beyond_level_array by (auto split: sum.splits)
  define sized where "sized = foldl setColumnWidth placed (js_nodes placed)"
  have "set (drop 174 (js_writes sized)) \<subseteq> set (js_writes sized)" by (rule set_drop_subset)
  then have 1: "{(Row, NaN, None, 1), (Row, NaN, Some 1, 3), (Row, NaN, Some 3, 3)}
      \<subseteq> set (js_writes sized)" using w by (simp add: sized_def)
  have "createMapping LR (js_chain 26) = route_edges LR [0..<length (js_edges sized)] sized"
    using pl by (simp add: createMapping_def sized_def Let_def)
  then have "extends sized (fst (createMapping LR (js_chain 26)))"
    using extends_route_edges [of sized LR] by simp
  then show ?thesis using 1 by (auto simp add: extends_def)
qed

text \<open>
  Claim C5. In every run of \<open>createMapping\<close> on a graph before layout, however the run
  ends (normally, with an exception, or in a search that never returns), every write to the column-width map and to the row-height map that
  finds a value there writes a value that is at least as large: in node sizing (the three
  columns and rows of a node by \<open>max\<close>, the padding before it), in the default sizes
  along a path (only where there is none) and in label widening (by \<open>max\<close>). This
  includes the runs whose placement has left the hundred entries of
  \<open>highestPositionPerLevel\<close>, where coordinates and keys are \<open>undefined\<close> or \<open>NaN\<close>.
\<close>

theorem createMapping_sizes_never_decrease:
  assumes "fresh g"
  shows "\<forall>ax k v written.
     (ax, k, Some v, written) \<in> set (js_writes (fst (createMapping graphDirection g))) \<longrightarrow>
     v \<le> written"
proof -
  have "log_ok (fst (createMapping graphDirection g))" using assms by (rule createMapping_log)
  then show ?thesis by (force simp add: log_ok_def grows_def)
qed

theorem createMapping_sizes_never_decrease_witness:
  "fresh js_fork \<and>
   js_writes (fst (createMapping LR js_fork)) =
        [(Column, Num 0, None, 1), (Column, Num 1, None, 3), (Column, Num 2, None, 1),
         (Row, Num 0, None, 1), (Row, Num 1, None, 3), (Row, Num 2, None, 1),
         (Column, Num 4, None, 1), (Column, Num 5, None, 3), (Column, Num 6, None, 1),
         (Row, Num 0, Some 1, 1), (Row, Num 1, Some 3, 3), (Row, Num 2, Some 1, 1),
         (Column, Num 3, None, 5),
         (Column, Num 4, Some 1, 1), (Column, Num 5, Some 3, 3), (Column, Num 6, Some 1, 1),
         (Row, Num 4, None, 1), (Row, Num 5, None, 3), (Row, Num 6, None, 1),
         (Column, Num 3, Some 5, 5), (Row, Num 3, None, 5),
         (Column, Num 1, Some 3, 4), (Column, Num 7, None, 2)]"
proof -
  have fr: "fresh js_fork" unfolding js_fork_def by (rule fresh_js_new_graph)
  have w: "js_writes (fst (createMapping LR js_fork)) =
        [(Column, Num 0, None, 1), (Column, Num 1, None, 3), (Column, Num 2, None, 1),
         (Row, Num 0, None, 1), (Row, Num 1, None, 3), (Row, Num 2, None, 1),
         (Column, Num 4, None, 1), (Column, Num 5, None, 3), (Column, Num 6, None, 1),
         (Row, Num 0, Some 1, 1), (Row, Num 1, Some 3, 3), (Row, Num 2, Some 1, 1),
         (Column, Num 3, None, 5),
         (Column, Num 4, Some 1, 1), (Column, Num 5, Some 3, 3), (Column, Num 6, Some 1, 1),
         (Row, Num 4, None, 1), (Row, Num 5, None, 3), (Row, Num 6, None, 1),
         (Column, Num 3, Some 5, 5), (Row, Num 3, None, 5),
         (Column, Num 1, Some 3, 4), (Column, Num 7, None, 2)]"
    by code_simp
  show ?thesis
    using createMapping_sizes_never_decrease [OF fr, of LR] fr w by simp
qed

end
